theory Spec2Isabelle
  imports Main "HOL-Library.Word"
begin

unbundle bit_operations_syntax

section \<open>Bytes, files and Python values\<close>

text \<open>
  A file is the list of its bytes. Python integers are unbounded and are modelled as
  \<open>int\<close>; a Python \<open>str\<close> is the list of its Unicode code points. The exceptions that
  the opener and the extractor can raise on a readable file are values of \<open>error\<close>.
\<close>

type_synonym byte = "8 word"
type_synonym bytes = "byte list"
type_synonym str = "nat list"

datatype error = StructError | UnicodeDecodeError | OSError | ValueError | OverflowError

text \<open>\<open>file.seek(pos); file.read(n)\<close>: a read at the end of the file returns fewer bytes.\<close>

definition read_at :: "bytes \<Rightarrow> nat \<Rightarrow> nat \<Rightarrow> bytes" where
  "read_at file pos n = take n (drop pos file)"

text \<open>The slice \<open>b[lo:hi]\<close> for non-negative bounds; it is empty when \<open>hi \<le> lo\<close>.\<close>

definition slice :: "'a list \<Rightarrow> nat \<Rightarrow> nat \<Rightarrow> 'a list" where
  "slice xs lo hi = take (hi - lo) (drop lo xs)"

text \<open>\<open>struct.unpack('<I', b)[0]\<close>: raises \<open>struct.error\<close> unless \<open>b\<close> has exactly 4 bytes.\<close>

fun unpack_u32 :: "bytes \<Rightarrow> error + int" where
  "unpack_u32 [b0, b1, b2, b3] =
     Inr (uint b0 + 256 * uint b1 + 65536 * uint b2 + 16777216 * uint b3)"
| "unpack_u32 _ = Inl StructError"

text \<open>The expression \<open>x & ~0xC0000000\<close> on Python integers.\<close>

definition mask_offset :: "int \<Rightarrow> int" where
  "mask_offset x = x AND NOT 0xC0000000"

subsection \<open>Strings\<close>

text \<open>
  \<open>bytes.decode('utf-8')\<close> in strict mode: \<open>None\<close> stands for \<open>UnicodeDecodeError\<close>.
  Overlong forms, surrogates, code points above \<open>0x10FFFF\<close>, stray continuation bytes
  and truncated sequences are all rejected.
\<close>

definition in_range :: "nat \<Rightarrow> nat \<Rightarrow> byte \<Rightarrow> bool" where
  "in_range lo hi b = (lo \<le> unat b \<and> unat b \<le> hi)"

definition cons_opt :: "'a \<Rightarrow> 'a list option \<Rightarrow> 'a list option" where
  "cons_opt x r = (case r of None \<Rightarrow> None | Some xs \<Rightarrow> Some (x # xs))"

fun utf8_decode :: "bytes \<Rightarrow> str option" where
  "utf8_decode [] = Some []"
| "utf8_decode (b0 # bs) =
     (if unat b0 < 0x80 then cons_opt (unat b0) (utf8_decode bs)
      else if unat b0 < 0xC2 then None
      else if unat b0 < 0xE0 then
        (case bs of
           b1 # r \<Rightarrow>
             if in_range 0x80 0xBF b1
             then cons_opt ((unat b0 - 0xC0) * 64 + (unat b1 - 0x80)) (utf8_decode r)
             else None
         | _ \<Rightarrow> None)
      else if unat b0 < 0xF0 then
        (case bs of
           b1 # b2 # r \<Rightarrow>
             if in_range (if unat b0 = 0xE0 then 0xA0 else 0x80)
                         (if unat b0 = 0xED then 0x9F else 0xBF) b1
                \<and> in_range 0x80 0xBF b2
             then cons_opt ((unat b0 - 0xE0) * 4096 + (unat b1 - 0x80) * 64 + (unat b2 - 0x80))
                    (utf8_decode r)
             else None
         | _ \<Rightarrow> None)
      else if unat b0 < 0xF5 then
        (case bs of
           b1 # b2 # b3 # r \<Rightarrow>
             if in_range (if unat b0 = 0xF0 then 0x90 else 0x80)
                         (if unat b0 = 0xF4 then 0x8F else 0xBF) b1
                \<and> in_range 0x80 0xBF b2 \<and> in_range 0x80 0xBF b3
             then cons_opt ((unat b0 - 0xF0) * 262144 + (unat b1 - 0x80) * 4096
                             + (unat b2 - 0x80) * 64 + (unat b3 - 0x80))
                    (utf8_decode r)
             else None
         | _ \<Rightarrow> None)
      else None)"

text \<open>\<open>s.rstrip(c)\<close> for a one-character argument.\<close>

definition rstrip :: "'a \<Rightarrow> 'a list \<Rightarrow> 'a list" where
  "rstrip c s = rev (dropWhile (\<lambda>x. x = c) (rev s))"

text \<open>
  \<open>str.lower()\<close>. It is exact on ASCII and on the two code points whose lowercase form
  contains an ASCII letter (U+0130 gives \<open>i\<close> followed by U+0307, the Kelvin sign U+212A
  gives \<open>k\<close>). The lowercase form of every other code point consists of non-ASCII code
  points; such a code point is kept as it is, which changes no comparison of the result
  with an ASCII literal.
\<close>

definition lower_cp :: "nat \<Rightarrow> str" where
  "lower_cp c =
     (if 0x41 \<le> c \<and> c \<le> 0x5A then [c + 0x20]
      else if c = 0x130 then [0x69, 0x307]
      else if c = 0x212A then [0x6B]
      else [c])"

definition lower :: "str \<Rightarrow> str" where
  "lower s = concat (map lower_cp s)"

definition endswith :: "'a list \<Rightarrow> 'a list \<Rightarrow> bool" where
  "endswith s suf = (length suf \<le> length s \<and> drop (length s - length suf) s = suf)"

text \<open>A string literal of the source, as code points.\<close>

definition lit :: "string \<Rightarrow> str" where
  "lit s = map of_char s"

section \<open>The entry model\<close>

text \<open>
  Class \<open>Entry\<close> and its subclass \<open>CgfEntry\<close>, which adds \<open>flags\<close>. The specification
  calls an \<open>Entry\<close> that is not a \<open>CgfEntry\<close> the kind Generic and a \<open>CgfEntry\<close> the kind
  Image.
\<close>

datatype entry =
    Entry (name_of: str) (type_of: string) (offset_of: int) (size_of: int)
  | CgfEntry (name_of: str) (type_of: string) (offset_of: int) (size_of: int) (flags_of: int)

record ArcFile =
  filename :: string
  entries :: "entry list"

section \<open>The archive opener\<close>

definition is_sane_count :: "int \<Rightarrow> bool" where
  "is_sane_count count = (0 < count \<and> count < 100000)"

text \<open>The characters of the raw string \<open>r'\/:*?"<>|'\<close>.\<close>

definition forbidden_chars :: str where
  "forbidden_chars = [0x5C, 0x2F, 0x3A, 0x2A, 0x3F, 0x22, 0x3C, 0x3E, 0x7C]"

definition is_valid_entry_name :: "str \<Rightarrow> bool" where
  "is_valid_entry_name name = (name \<noteq> [] \<and> \<not> list_ex (\<lambda>c. c \<in> set name) forbidden_chars)"

text \<open>Lines 67 to 70: the class of the entry that a record produces.\<close>

definition make_entry :: "str \<Rightarrow> int \<Rightarrow> int \<Rightarrow> int \<Rightarrow> entry" where
  "make_entry name flags offset size' =
     (if flags = 1 \<or> endswith (lower name) (lit ''.iaf'')
      then Entry name ''image'' offset size'
      else CgfEntry name ''image'' offset size' flags)"

text \<open>
  One iteration of the loop \<open>for i in range(count)\<close>, lines 52 to 70. It returns the new
  value of the loop variable \<open>next_offset\<close> and the entry to append; \<open>Inr None\<close> is the
  early \<open>return None\<close>, \<open>Inl\<close> an exception.
\<close>

definition loop_body ::
  "nat \<Rightarrow> bytes \<Rightarrow> nat \<Rightarrow> nat \<Rightarrow> nat \<Rightarrow> int \<Rightarrow> error + (int \<times> entry) option"
where
  "loop_body file_len index_data entry_size count i next_offset =
     (case utf8_decode (slice index_data (i * entry_size) (i * entry_size + entry_size - 4)) of
        None \<Rightarrow> Inl UnicodeDecodeError
      | Some s \<Rightarrow>
          let name = rstrip 0 s in
          if \<not> is_valid_entry_name name then Inr None
          else
            let flags = drop_bit 30 next_offset;
                offset = mask_offset next_offset
            in (case (if i + 1 = count then Inr (int file_len)
                      else unpack_u32 (slice index_data ((i + 1) * entry_size + entry_size - 4)
                                                        ((i + 2) * entry_size))) of
                  Inl e \<Rightarrow> Inl e
                | Inr next_offset' \<Rightarrow>
                    let size = mask_offset next_offset' - offset
                    in Inr (Some (next_offset', make_entry name flags offset size))))"

text \<open>
  The loop itself, run over the indices that are left, with the loop variables
  \<open>next_offset\<close> and \<open>dir\<close> passed along.
\<close>

fun read_dir ::
  "nat \<Rightarrow> bytes \<Rightarrow> nat \<Rightarrow> nat \<Rightarrow> nat list \<Rightarrow> int \<Rightarrow> entry list \<Rightarrow> error + entry list option"
where
  "read_dir file_len index_data entry_size count [] next_offset dir = Inr (Some dir)"
| "read_dir file_len index_data entry_size count (i # rest) next_offset dir =
     (case loop_body file_len index_data entry_size count i next_offset of
        Inl e \<Rightarrow> Inl e
      | Inr None \<Rightarrow> Inr None
      | Inr (Some (next_offset', entry)) \<Rightarrow>
          read_dir file_len index_data entry_size count rest next_offset' (dir @ [entry]))"

text \<open>Lines 46 to 74 of \<open>try_open\<close>: read the index block and decode every record.\<close>

definition open_index :: "string \<Rightarrow> bytes \<Rightarrow> nat \<Rightarrow> nat \<Rightarrow> int \<Rightarrow> error + ArcFile option" where
  "open_index fname file count entry_size next_offset =
     (let index_size = entry_size * count;
          index_data = read_at file 4 index_size
      in (case read_dir (length file) index_data entry_size count [0..<count] next_offset [] of
            Inl e \<Rightarrow> Inl e
          | Inr None \<Rightarrow> Inr None
          | Inr (Some dir) \<Rightarrow> Inr (Some \<lparr>filename = fname, entries = dir\<rparr>)))"

definition try_open :: "string \<Rightarrow> bytes \<Rightarrow> error + ArcFile option" where
  "try_open fname file =
     (case unpack_u32 (read_at file 0 4) of
        Inl e \<Rightarrow> Inl e
      | Inr count \<Rightarrow>
          if \<not> is_sane_count count then Inr None
          else
            (case unpack_u32 (read_at file 0x14 4) of
               Inl e \<Rightarrow> Inl e
             | Inr offset1 \<Rightarrow>
                 (case unpack_u32 (read_at file 0x20 4) of
                    Inl e \<Rightarrow> Inl e
                  | Inr offset2 \<Rightarrow>
                      if 4 + count * 0x14 = mask_offset offset1
                      then open_index fname file (nat count) 0x14 offset1
                      else if 4 + count * 0x20 = mask_offset offset2
                      then open_index fname file (nat count) 0x20 offset2
                      else Inr None)))"

section \<open>The extractor\<close>

text \<open>
  \<open>extract_file\<close> returns the bytes written to the destination. Lines 92 and 93,
  \<open>arc.seek(pos); arc.read(n)\<close>, on a buffered binary file: \<open>seek\<close> raises \<open>ValueError\<close>
  for a position that does not fit a signed 64-bit file offset and \<open>OSError\<close> for any other
  negative position; \<open>read\<close> raises \<open>OverflowError\<close> for a size that does not fit a signed
  64-bit integer and \<open>ValueError\<close> for any other size below \<open>-1\<close>, reads to the end of the
  file for \<open>-1\<close>, and otherwise returns up to \<open>n\<close> bytes.
\<close>

definition arc_read :: "bytes \<Rightarrow> int \<Rightarrow> int \<Rightarrow> error + bytes" where
  "arc_read arc pos n =
     (if pos < - (2 ^ 63) \<or> 2 ^ 63 \<le> pos then Inl ValueError
      else if pos < 0 then Inl OSError
      else if n < - (2 ^ 63) \<or> 2 ^ 63 \<le> n then Inl OverflowError
      else if n < -1 then Inl ValueError
      else if n = -1 then Inr (drop (nat pos) arc)
      else Inr (read_at arc (nat pos) (nat n)))"

definition extract_file :: "bytes \<Rightarrow> entry \<Rightarrow> error + bytes" where
  "extract_file arc entry =
     (case arc_read arc (offset_of entry) (size_of entry) of
        Inl e \<Rightarrow> Inl e
      | Inr content \<Rightarrow>
          let modified_content = [0, 0, 0] @ drop 3 content
          in Inr ([0, 0, 0, 0] @ modified_content))"

section \<open>The index layout in the words of the specification\<close>

text \<open>
  The following definitions describe the archive as the specification does: the
  little-endian 32-bit value at a file offset, the name field and the packed trailing
  field of record \<open>i\<close> for a record size \<open>es\<close>, and the record size that the detection
  step selects. They are used to state what \<open>try_open\<close> computes.
\<close>

definition le_u32 :: "bytes \<Rightarrow> int" where
  "le_u32 b = (case unpack_u32 b of Inr v \<Rightarrow> v | Inl e \<Rightarrow> 0)"

definition u32_at :: "bytes \<Rightarrow> nat \<Rightarrow> int" where
  "u32_at file pos = le_u32 (read_at file pos 4)"

definition record_name :: "bytes \<Rightarrow> nat \<Rightarrow> nat \<Rightarrow> bytes" where
  "record_name file es i = read_at file (4 + i * es) (es - 4)"

definition record_field :: "bytes \<Rightarrow> nat \<Rightarrow> nat \<Rightarrow> int" where
  "record_field file es i = u32_at file (4 + i * es + (es - 4))"

definition selected_layout :: "bytes \<Rightarrow> nat option" where
  "selected_layout file =
     (let count = u32_at file 0 in
      if 4 + count * 0x14 = u32_at file 0x14 mod 2 ^ 30 then Some 0x14
      else if 4 + count * 0x20 = u32_at file 0x20 mod 2 ^ 30 then Some 0x20
      else None)"

definition next_field :: "bytes \<Rightarrow> nat \<Rightarrow> nat \<Rightarrow> nat \<Rightarrow> int" where
  "next_field file es count i =
     (if i + 1 = count then int (length file) else record_field file es (i + 1))"

definition record_str :: "bytes \<Rightarrow> nat \<Rightarrow> nat \<Rightarrow> str option" where
  "record_str file es i = map_option (rstrip 0) (utf8_decode (record_name file es i))"

definition decoded_entry :: "bytes \<Rightarrow> nat \<Rightarrow> nat \<Rightarrow> nat \<Rightarrow> entry" where
  "decoded_entry file es count i =
     make_entry (the (record_str file es i))
       (drop_bit 30 (record_field file es i))
       (mask_offset (record_field file es i))
       (mask_offset (next_field file es count i) - mask_offset (record_field file es i))"

text \<open>Adjacent ranges: each entry ends where the next one starts.\<close>

fun contiguous :: "entry list \<Rightarrow> bool" where
  "contiguous (a # b # rest) = (offset_of a + size_of a = offset_of b \<and> contiguous (b # rest))"
| "contiguous _ = True"

text \<open>
  The directory range invariant as the specification states it: contiguous ranges,
  strictly increasing offsets, and the last range ending within the file.
\<close>

definition range_invariant :: "entry list \<Rightarrow> nat \<Rightarrow> bool" where
  "range_invariant dir file_len =
     (contiguous dir \<and> sorted_wrt (<) (map offset_of dir)
      \<and> (dir \<noteq> [] \<longrightarrow> offset_of (last dir) + size_of (last dir) \<le> int file_len))"

text \<open>
  A name that ends with \<open>.iaf\<close> in any mixture of upper and lower case: the last four
  code points are \<open>.\<close>, \<open>i\<close> or \<open>I\<close>, \<open>a\<close> or \<open>A\<close>, \<open>f\<close> or \<open>F\<close>.
\<close>

definition ends_with_iaf :: "str \<Rightarrow> bool" where
  "ends_with_iaf name =
     (case rev name of
        c3 # c2 # c1 # c0 # p \<Rightarrow>
          c0 = 0x2E \<and> (c1 = 0x69 \<or> c1 = 0x49) \<and> (c2 = 0x61 \<or> c2 = 0x41)
          \<and> (c3 = 0x66 \<or> c3 = 0x46)
      | _ \<Rightarrow> False)"

section \<open>Serializing an archive\<close>

text \<open>
  The synthetic archives of the round-trip property, built as the binary layout of the
  specification prescribes: the count, then one record per entry (the UTF-8 name padded
  with null bytes to \<open>record_size - 4\<close> bytes, then the packed field with the flags in
  the top 2 bits and the offset in the low 30 bits), then the payloads one after the
  other, the first at the end of the index. An item is a name, its flags and its
  payload.
\<close>

type_synonym item = "str \<times> int \<times> bytes"

definition pack_u32 :: "int \<Rightarrow> bytes" where
  "pack_u32 v =
     [word_of_int v, word_of_int (v div 256), word_of_int (v div 65536),
      word_of_int (v div 16777216)]"

definition utf8_encode_cp :: "nat \<Rightarrow> bytes" where
  "utf8_encode_cp c =
     (if c < 0x80 then [of_nat c]
      else if c < 0x800 then [of_nat (0xC0 + c div 64), of_nat (0x80 + c mod 64)]
      else if c < 0x10000 then
        [of_nat (0xE0 + c div 4096), of_nat (0x80 + c div 64 mod 64), of_nat (0x80 + c mod 64)]
      else
        [of_nat (0xF0 + c div 262144), of_nat (0x80 + c div 4096 mod 64),
         of_nat (0x80 + c div 64 mod 64), of_nat (0x80 + c mod 64)])"

definition utf8_encode :: "str \<Rightarrow> bytes" where
  "utf8_encode s = concat (map utf8_encode_cp s)"

text \<open>The code points that a Python string can hold and UTF-8 can encode.\<close>

definition valid_code_point :: "nat \<Rightarrow> bool" where
  "valid_code_point c = (c < 0xD800 \<or> (0xE000 \<le> c \<and> c < 0x110000))"

definition name_field :: "nat \<Rightarrow> str \<Rightarrow> bytes" where
  "name_field rs name =
     utf8_encode name @ replicate (rs - 4 - length (utf8_encode name)) 0"

fun index_records :: "nat \<Rightarrow> int \<Rightarrow> item list \<Rightarrow> bytes" where
  "index_records rs off [] = []"
| "index_records rs off ((name, flags, payload) # rest) =
     name_field rs name @ pack_u32 (flags * 2 ^ 30 + off)
     @ index_records rs (off + int (length payload)) rest"

definition payloads :: "item list \<Rightarrow> bytes" where
  "payloads items = concat (map (\<lambda>(name, flags, payload). payload) items)"

definition serialize :: "nat \<Rightarrow> item list \<Rightarrow> bytes" where
  "serialize rs items =
     pack_u32 (int (length items))
     @ index_records rs (4 + int (length items) * int rs) items
     @ payloads items"

text \<open>
  A valid item: the name is accepted by \<open>is_valid_entry_name\<close>, does not end with a null
  character, consists of encodable code points and fits the name field; the flags are
  two bits.
\<close>

definition valid_item :: "nat \<Rightarrow> item \<Rightarrow> bool" where
  "valid_item rs it =
     (case it of (name, flags, payload) \<Rightarrow>
        is_valid_entry_name name \<and> last name \<noteq> 0 \<and> list_all valid_code_point name
        \<and> length (utf8_encode name) \<le> rs - 4 \<and> 0 \<le> flags \<and> flags \<le> 3)"

text \<open>The directory that the items describe, the first payload starting at \<open>off\<close>.\<close>

fun expected_dir :: "int \<Rightarrow> item list \<Rightarrow> entry list" where
  "expected_dir off [] = []"
| "expected_dir off ((name, flags, payload) # rest) =
     (if flags = 1 \<or> ends_with_iaf name
      then Entry name ''image'' off (int (length payload))
      else CgfEntry name ''image'' off (int (length payload)) flags)
     # expected_dir (off + int (length payload)) rest"

text \<open>
  The offset of entry \<open>i\<close> of the serialized items: the end of the index plus the
  lengths of the payloads before it.
\<close>

definition entry_offset :: "nat \<Rightarrow> item list \<Rightarrow> nat \<Rightarrow> int" where
  "entry_offset rs items i =
     4 + int (length items) * int rs + int (length (payloads (take i items)))"

text \<open>
  Items: the entry of the end-to-end example; an entry whose name has a control
  character at position 16; an entry with a payload that fills the file up to \<open>2 ^ 30\<close>
  bytes under record size \<open>0x14\<close>; and the two entries of \<open>two_entry_archive\<close>.
\<close>

definition tiny_items :: "item list" where
  "tiny_items =
     [(lit ''A.IMG'', 0, [0x30, 0x31, 0x32, 0x33, 0x34, 0x35, 0x36, 0x37, 0x38, 0x39])]"

definition tie_items :: "item list" where
  "tie_items = [(lit ''AAAAAAAAAAAAAAAA'' @ [0x18], 0, [1, 2, 3])]"

definition big_items :: "item list" where
  "big_items = [(lit ''A'', 0, replicate (2 ^ 30 - 0x18) 0)]"

definition two_items :: "item list" where
  "two_items = [(lit ''a.png'', 0, [1, 2, 3]), (lit ''b.IAF'', 2, [4, 5, 6, 7, 8])]"

section \<open>Example archives\<close>

text \<open>
  The archive of the end-to-end example: \<open>count = 1\<close>, one record of size \<open>0x14\<close> with the
  name \<open>A.IMG\<close> and the trailing field \<open>0\<close>, then the payload \<open>0123456789\<close>. The second
  archive differs in the trailing field only, which holds the end of the index, \<open>0x18\<close>.
\<close>

definition example_archive :: bytes where
  "example_archive =
     [1, 0, 0, 0,
      0x41, 0x2E, 0x49, 0x4D, 0x47, 0, 0, 0, 0, 0, 0, 0, 0, 0, 0, 0,
      0, 0, 0, 0,
      0x30, 0x31, 0x32, 0x33, 0x34, 0x35, 0x36, 0x37, 0x38, 0x39]"

definition example_archive_0x18 :: bytes where
  "example_archive_0x18 =
     [1, 0, 0, 0,
      0x41, 0x2E, 0x49, 0x4D, 0x47, 0, 0, 0, 0, 0, 0, 0, 0, 0, 0, 0,
      0x18, 0, 0, 0,
      0x30, 0x31, 0x32, 0x33, 0x34, 0x35, 0x36, 0x37, 0x38, 0x39]"

text \<open>The same archive with the payload \<open>0123456789AB\<close>, 36 bytes in all.\<close>

definition example_archive_12 :: bytes where
  "example_archive_12 =
     [1, 0, 0, 0,
      0x41, 0x2E, 0x49, 0x4D, 0x47, 0, 0, 0, 0, 0, 0, 0, 0, 0, 0, 0,
      0x18, 0, 0, 0,
      0x30, 0x31, 0x32, 0x33, 0x34, 0x35, 0x36, 0x37, 0x38, 0x39, 0x41, 0x42]"

text \<open>
  Two entries with record size \<open>0x14\<close>: \<open>a.png\<close> with flags 0 and 3 payload bytes, and
  \<open>b.IAF\<close> with flags 2 and 5 payload bytes.
\<close>

definition two_entry_archive :: bytes where
  "two_entry_archive =
     [2, 0, 0, 0,
      0x61, 0x2E, 0x70, 0x6E, 0x67, 0, 0, 0, 0, 0, 0, 0, 0, 0, 0, 0,
      0x2C, 0, 0, 0,
      0x62, 0x2E, 0x49, 0x41, 0x46, 0, 0, 0, 0, 0, 0, 0, 0, 0, 0, 0,
      0x2F, 0, 0, 0x80,
      1, 2, 3,
      4, 5, 6, 7, 8]"

definition two_entry_dir :: "entry list" where
  "two_entry_dir =
     [CgfEntry (lit ''a.png'') ''image'' 0x2C 3 0, Entry (lit ''b.IAF'') ''image'' 0x2F 5]"

text \<open>
  One record; the value at offset \<open>0x14\<close> fits the record size \<open>0x14\<close> and the value at
  offset \<open>0x20\<close> fits the record size \<open>0x20\<close>.
\<close>

definition tie_archive :: bytes where
  "tie_archive =
     [1, 0, 0, 0,
      0x41, 0, 0, 0, 0, 0, 0, 0, 0, 0, 0, 0, 0, 0, 0, 0,
      0x18, 0, 0, 0,
      0, 0, 0, 0, 0, 0, 0, 0,
      0x24, 0, 0, 0]"

text \<open>Files that are not archives.\<close>

definition zero_count_file :: bytes where
  "zero_count_file = [0, 0, 0, 0]"

definition huge_count_file :: bytes where
  "huge_count_file = [0xA0, 0x86, 0x01, 0x00]"

definition no_layout_file :: bytes where
  "no_layout_file =
     [1, 0, 0, 0,
      0, 0, 0, 0, 0, 0, 0, 0, 0, 0, 0, 0, 0, 0, 0, 0,
      0, 0, 0, 0, 0, 0, 0, 0, 0, 0, 0, 0, 0, 0, 0, 0]"

text \<open>Two records of size \<open>0x14\<close>; the second name is \<open>B?\<close>.\<close>

definition bad_name_file :: bytes where
  "bad_name_file =
     [2, 0, 0, 0,
      0x41, 0, 0, 0, 0, 0, 0, 0, 0, 0, 0, 0, 0, 0, 0, 0,
      0x2C, 0, 0, 0,
      0x42, 0x3F, 0, 0, 0, 0, 0, 0, 0, 0, 0, 0, 0, 0, 0, 0,
      0x2C, 0, 0, 0]"

text \<open>One record of size \<open>0x14\<close> whose name field starts with the byte \<open>0xFF\<close>.\<close>

definition bad_utf8_file :: bytes where
  "bad_utf8_file =
     [1, 0, 0, 0,
      0xFF, 0, 0, 0, 0, 0, 0, 0, 0, 0, 0, 0, 0, 0, 0, 0,
      0x18, 0, 0, 0,
      0, 0, 0, 0, 0, 0, 0, 0, 0, 0, 0, 0]"

text \<open>
  An archive of \<open>2 ^ 30\<close> bytes: one record of size \<open>0x14\<close> named \<open>A\<close>, followed by
  zero bytes.
\<close>

definition big_archive :: bytes where
  "big_archive =
     [1, 0, 0, 0,
      0x41, 0, 0, 0, 0, 0, 0, 0, 0, 0, 0, 0, 0, 0, 0, 0,
      0x18, 0, 0, 0,
      0, 0, 0, 0, 0, 0, 0, 0, 0, 0, 0, 0] @ replicate (2 ^ 30 - 36) 0"

text \<open>
  Two records of size \<open>0x14\<close>; the trailing field of the second record, \<open>0x10\<close>, is
  smaller than that of the first, \<open>0x2C\<close>.
\<close>

definition unordered_archive :: bytes where
  "unordered_archive =
     [2, 0, 0, 0,
      0x41, 0, 0, 0, 0, 0, 0, 0, 0, 0, 0, 0, 0, 0, 0, 0,
      0x2C, 0, 0, 0,
      0x42, 0, 0, 0, 0, 0, 0, 0, 0, 0, 0, 0, 0, 0, 0, 0,
      0x10, 0, 0, 0]"

text \<open>
  Two records of size \<open>0x14\<close> with the same trailing field \<open>0x2C\<close>, followed by 4
  payload bytes: the first entry is empty.
\<close>

definition empty_entry_archive :: bytes where
  "empty_entry_archive =
     [2, 0, 0, 0,
      0x41, 0, 0, 0, 0, 0, 0, 0, 0, 0, 0, 0, 0, 0, 0, 0,
      0x2C, 0, 0, 0,
      0x42, 0, 0, 0, 0, 0, 0, 0, 0, 0, 0, 0, 0, 0, 0, 0,
      0x2C, 0, 0, 0,
      1, 2, 3, 4]"

text \<open>
  The bytes of \<open>serialize 0x20 tie_items\<close>: one record of size \<open>0x20\<close> whose name field
  holds \<open>0x18\<close> at file offset \<open>0x14\<close>, then the packed field \<open>0x24\<close> and 3 payload bytes.
\<close>

definition tie_items_archive :: bytes where
  "tie_items_archive =
     [1, 0, 0, 0,
      0x41, 0x41, 0x41, 0x41, 0x41, 0x41, 0x41, 0x41,
      0x41, 0x41, 0x41, 0x41, 0x41, 0x41, 0x41, 0x41,
      0x18, 0, 0, 0, 0, 0, 0, 0, 0, 0, 0, 0,
      0x24, 0, 0, 0,
      1, 2, 3]"

text \<open>A file of 24 bytes: the count 1 and 20 zero bytes.\<close>

definition short_no_layout_file :: bytes where
  "short_no_layout_file =
     [1, 0, 0, 0,
      0, 0, 0, 0, 0, 0, 0, 0, 0, 0, 0, 0, 0, 0, 0, 0,
      0, 0, 0, 0]"

section \<open>Masking\<close>

lemma flag_bits: "(0xC0000000::int) = push_bit 30 (mask 2)"
  by (simp add: mask_eq_exp_minus_1)

lemma mask_offset_u32:
  assumes "0 \<le> x" "x < 2 ^ 32"
  shows "mask_offset x = x mod 2 ^ 30"
proof -
  have x: "x = take_bit 32 x"
    using assms by (simp add: take_bit_int_eq_self)
  have "take_bit 32 x AND NOT (push_bit 30 (mask 2)) = take_bit 30 (take_bit 32 x)"
    by (rule bit_eqI) (auto simp add: bit_simps)
  then show ?thesis
    using x by (simp add: mask_offset_def flag_bits take_bit_eq_mod)
qed

lemma mask_offset_small:
  assumes "0 \<le> x" "x < 2 ^ 30"
  shows "mask_offset x = x"
  using mask_offset_u32 [of x] assms by simp

lemma mask_offset_nonneg: "0 \<le> x \<Longrightarrow> 0 \<le> mask_offset x"
  by (simp add: mask_offset_def)

lemma mask_offset_le: "0 \<le> x \<Longrightarrow> mask_offset x \<le> x"
  by (simp add: mask_offset_def AND_upper1)

section \<open>Reading 32-bit values and slices\<close>

lemma unpack_u32_length:
  "length b = 4 \<Longrightarrow> unpack_u32 b = Inr (le_u32 b) \<and> 0 \<le> le_u32 b \<and> le_u32 b < 2 ^ 32"
proof -
  assume "length b = 4"
  then obtain b0 b1 b2 b3 where b: "b = [b0, b1, b2, b3]"
    by (auto simp add: length_Suc_conv numeral_eq_Suc)
  have "uint b0 < 256" "uint b1 < 256" "uint b2 < 256" "uint b3 < 256"
    using uint_bounded [of b0] uint_bounded [of b1] uint_bounded [of b2] uint_bounded [of b3]
    by simp_all
  moreover have "0 \<le> uint b0" "0 \<le> uint b1" "0 \<le> uint b2" "0 \<le> uint b3"
    by simp_all
  ultimately show ?thesis
    unfolding b le_u32_def by simp
qed

lemma unpack_u32_short: "length b \<noteq> 4 \<Longrightarrow> unpack_u32 b = Inl StructError"
  by (cases b rule: unpack_u32.cases) simp_all

lemma unpack_u32_Inr: "unpack_u32 b = Inr v \<Longrightarrow> length b = 4 \<and> v = le_u32 b"
  by (cases "length b = 4") (auto simp add: unpack_u32_length unpack_u32_short)

lemma length_read_at: "length (read_at file pos n) = min n (length file - pos)"
  by (simp add: read_at_def)

lemma read_u32_ok:
  "pos + 4 \<le> length file \<Longrightarrow> unpack_u32 (read_at file pos 4) = Inr (u32_at file pos)"
  by (simp add: u32_at_def unpack_u32_length length_read_at)

lemma read_u32_short:
  "length file < pos + 4 \<Longrightarrow> unpack_u32 (read_at file pos 4) = Inl StructError"
  by (rule unpack_u32_short) (simp add: length_read_at)

lemma u32_at_bounds:
  "pos + 4 \<le> length file \<Longrightarrow> 0 \<le> u32_at file pos \<and> u32_at file pos < 2 ^ 32"
  using unpack_u32_length [of "read_at file pos 4"] by (simp add: u32_at_def length_read_at)

lemma mask_offset_u32_at:
  "pos + 4 \<le> length file \<Longrightarrow> mask_offset (u32_at file pos) = u32_at file pos mod 2 ^ 30"
  using u32_at_bounds [of pos "file"] by (intro mask_offset_u32) simp_all

lemma slice_read_at:
  "hi \<le> n \<Longrightarrow> slice (read_at file p n) lo hi = read_at file (p + lo) (hi - lo)"
  by (simp add: slice_def read_at_def drop_take add.commute min_def)

lemma try_open_short: "length file < 4 \<Longrightarrow> try_open fname file = Inl StructError"
  by (simp add: try_open_def read_u32_short)

lemma try_open_insane:
  "4 \<le> length file \<Longrightarrow> \<not> is_sane_count (u32_at file 0) \<Longrightarrow> try_open fname file = Inr None"
  by (simp add: try_open_def read_u32_ok)

lemma try_open_no_probe:
  "4 \<le> length file \<Longrightarrow> is_sane_count (u32_at file 0) \<Longrightarrow> length file < 0x24
   \<Longrightarrow> try_open fname file = Inl StructError"
  by (cases "length file < 0x18") (simp_all add: try_open_def read_u32_ok read_u32_short)

lemma try_open_layout:
  assumes "0x24 \<le> length file" and "is_sane_count (u32_at file 0)"
  shows "try_open fname file =
     (case selected_layout file of
        None \<Rightarrow> Inr None
      | Some es \<Rightarrow> open_index fname file (nat (u32_at file 0)) es (u32_at file es))"
proof -
  have "mask_offset (u32_at file 0x14) = u32_at file 0x14 mod 2 ^ 30"
       "mask_offset (u32_at file 0x20) = u32_at file 0x20 mod 2 ^ 30"
    using assms(1) by (simp_all only: mask_offset_u32_at)
  then show ?thesis
    using assms by (simp add: try_open_def read_u32_ok selected_layout_def)
qed

section \<open>One iteration of the loop, in terms of the file\<close>

lemma record_bounds:
  fixes i count es :: nat
  assumes "i < count" "4 \<le> es"
  shows "i * es + es - 4 \<le> es * count" "(i + 1) * es \<le> es * count"
    "i * es + es - 4 - i * es = es - 4" "(i + 1) * es - (i * es + es - 4) = 4"
proof -
  have "(i + 1) * es \<le> count * es"
    using assms(1) mult_le_mono1 [of "Suc i" count es] by simp
  then show "(i + 1) * es \<le> es * count" "i * es + es - 4 \<le> es * count"
    by (simp_all add: mult.commute)
  show "i * es + es - 4 - i * es = es - 4" "(i + 1) * es - (i * es + es - 4) = 4"
    using assms(2) by simp_all
qed

lemma name_slice:
  assumes "i < count" "4 \<le> es"
  shows "slice (read_at file 4 (es * count)) (i * es) (i * es + es - 4) = record_name file es i"
  using record_bounds [OF assms] by (simp add: slice_read_at record_name_def)

lemma field_slice:
  assumes "i < count" "4 \<le> es"
  shows "slice (read_at file 4 (es * count)) (i * es + es - 4) ((i + 1) * es)
         = read_at file (4 + i * es + (es - 4)) 4"
proof -
  have "4 + (i * es + es - 4) = 4 + i * es + (es - 4)"
    using assms(2) by simp
  then show ?thesis
    using record_bounds [OF assms] by (simp add: slice_read_at)
qed

lemma next_field_slice:
  assumes "i + 1 < count" "4 \<le> es"
  shows "slice (read_at file 4 (es * count)) ((i + 1) * es + es - 4) ((i + 2) * es)
         = read_at file (4 + (i + 1) * es + (es - 4)) 4"
  using field_slice [OF assms, of "file"] by (simp add: numeral_2_eq_2)

lemma loop_body_file:
  assumes "i < count" "4 \<le> es"
  shows "loop_body (length file) (read_at file 4 (es * count)) es count i next_offset =
     (case utf8_decode (record_name file es i) of
        None \<Rightarrow> Inl UnicodeDecodeError
      | Some s \<Rightarrow>
          if \<not> is_valid_entry_name (rstrip 0 s) then Inr None
          else (case (if i + 1 = count then Inr (int (length file))
                      else unpack_u32 (read_at file (4 + (i + 1) * es + (es - 4)) 4)) of
                  Inl e \<Rightarrow> Inl e
                | Inr next_offset' \<Rightarrow>
                    Inr (Some (next_offset',
                      make_entry (rstrip 0 s) (drop_bit 30 next_offset) (mask_offset next_offset)
                        (mask_offset next_offset' - mask_offset next_offset)))))"
proof (cases "i + 1 = count")
  case True
  then show ?thesis
    by (simp add: loop_body_def name_slice [OF assms] Let_def split: option.split sum.split)
next
  case False
  with assms(1) have "i + 1 < count" by simp
  from next_field_slice [OF this assms(2), of "file"] False show ?thesis
    by (simp add: loop_body_def name_slice [OF assms] Let_def split: option.split sum.split)
qed

lemma read_u32_Inr:
  assumes "unpack_u32 (read_at file pos 4) = Inr v"
  shows "v = u32_at file pos" "pos + 4 \<le> length file"
proof -
  from unpack_u32_Inr [OF assms] have l: "length (read_at file pos 4) = 4" and v: "v = le_u32 (read_at file pos 4)"
    by simp_all
  show "v = u32_at file pos" using v by (simp add: u32_at_def)
  show "pos + 4 \<le> length file" using l by (simp add: length_read_at)
qed

lemma loop_body_SomeD:
  assumes "loop_body (length file) (read_at file 4 (es * count)) es count i no = Inr (Some (no', e))"
      and "i < count" "4 \<le> es"
  shows "\<exists>s. utf8_decode (record_name file es i) = Some s \<and> is_valid_entry_name (rstrip 0 s)
           \<and> e = make_entry (rstrip 0 s) (drop_bit 30 no) (mask_offset no)
                   (mask_offset no' - mask_offset no)"
    and "no' = next_field file es count i"
    and "i + 1 < count \<Longrightarrow> 4 + (i + 2) * es \<le> length file"
proof -
  note b = assms(1) [unfolded loop_body_file [OF assms(2,3)]]
  from b obtain s where s: "utf8_decode (record_name file es i) = Some s"
    by (auto split: option.splits)
  from b s have v: "is_valid_entry_name (rstrip 0 s)"
    by (auto split: if_splits)
  from b s v have n: "(if i + 1 = count then Inr (int (length file))
            else unpack_u32 (read_at file (4 + (i + 1) * es + (es - 4)) 4)) = Inr no'"
    and e: "e = make_entry (rstrip 0 s) (drop_bit 30 no) (mask_offset no)
                   (mask_offset no' - mask_offset no)"
    by (auto split: sum.splits)
  from s v e show "\<exists>s. utf8_decode (record_name file es i) = Some s \<and> is_valid_entry_name (rstrip 0 s)
           \<and> e = make_entry (rstrip 0 s) (drop_bit 30 no) (mask_offset no)
                   (mask_offset no' - mask_offset no)"
    by blast
  show "no' = next_field file es count i"
  proof (cases "i + 1 = count")
    case True
    with n show ?thesis by (simp add: next_field_def)
  next
    case False
    with n have "unpack_u32 (read_at file (4 + (i + 1) * es + (es - 4)) 4) = Inr no'" by simp
    from read_u32_Inr(1) [OF this] False show ?thesis
      by (simp add: next_field_def record_field_def)
  qed
  show "4 + (i + 2) * es \<le> length file" if "i + 1 < count"
  proof -
    from that n have "unpack_u32 (read_at file (4 + (i + 1) * es + (es - 4)) 4) = Inr no'" by simp
    from read_u32_Inr(2) [OF this] assms(3) show ?thesis by simp
  qed
qed

lemma read_dir_Some:
  assumes es: "4 \<le> es"
  shows "read_dir (length file) (read_at file 4 (es * count)) es count [k..<count] no dir
           = Inr (Some d)
     \<Longrightarrow> (k < count \<Longrightarrow> no = record_field file es k)
     \<Longrightarrow> d = dir @ map (decoded_entry file es count) [k..<count]
         \<and> (\<forall>i. k \<le> i \<and> i < count \<longrightarrow>
               (\<exists>s. utf8_decode (record_name file es i) = Some s
                  \<and> is_valid_entry_name (rstrip 0 s)))
         \<and> (\<forall>i. k \<le> i \<and> i + 1 < count \<longrightarrow> 4 + (i + 2) * es \<le> length file)"
proof (induction "count - k" arbitrary: k no dir)
  case 0
  then show ?case by auto
next
  case (Suc n)
  then have k: "k < count" by simp
  then have upt: "[k..<count] = k # [Suc k..<count]" by (simp add: upt_conv_Cons)
  from Suc.prems(1) obtain no' e where
    body: "loop_body (length file) (read_at file 4 (es * count)) es count k no = Inr (Some (no', e))"
    and rest: "read_dir (length file) (read_at file 4 (es * count)) es count [Suc k..<count] no' (dir @ [e])
           = Inr (Some d)"
    unfolding upt by (auto split: sum.splits option.splits)
  from loop_body_SomeD(1) [OF body k es] obtain s where
    s: "utf8_decode (record_name file es k) = Some s" "is_valid_entry_name (rstrip 0 s)"
    and e: "e = make_entry (rstrip 0 s) (drop_bit 30 no) (mask_offset no) (mask_offset no' - mask_offset no)"
    by blast
  note no' = loop_body_SomeD(2) [OF body k es]
  note len = loop_body_SomeD(3) [OF body k es]
  have e': "e = decoded_entry file es count k"
    using e s no' Suc.prems(2) [OF k] by (simp add: decoded_entry_def record_str_def)
  have "n = count - Suc k" using Suc.hyps(2) by simp
  moreover have "no' = record_field file es (Suc k)" if "Suc k < count"
    using that no' by (simp add: next_field_def)
  ultimately have ih: "d = (dir @ [e]) @ map (decoded_entry file es count) [Suc k..<count]
      \<and> (\<forall>i. Suc k \<le> i \<and> i < count \<longrightarrow>
               (\<exists>s. utf8_decode (record_name file es i) = Some s
                  \<and> is_valid_entry_name (rstrip 0 s)))
      \<and> (\<forall>i. Suc k \<le> i \<and> i + 1 < count \<longrightarrow> 4 + (i + 2) * es \<le> length file)"
    using Suc.hyps(1) [of "Suc k" no' "dir @ [e]"] rest by blast
  have "d = dir @ map (decoded_entry file es count) [k..<count]"
    using ih e' upt by simp
  moreover have "\<exists>s. utf8_decode (record_name file es i) = Some s \<and> is_valid_entry_name (rstrip 0 s)"
    if "k \<le> i" "i < count" for i
    using that ih s by (cases "i = k") auto
  moreover have "4 + (i + 2) * es \<le> length file" if "k \<le> i" "i + 1 < count" for i
    using that ih len by (cases "i = k") auto
  ultimately show ?case by blast
qed

section \<open>The loop\<close>

lemma loop_body_NoneD:
  assumes "loop_body (length file) (read_at file 4 (es * count)) es count i no = Inr None"
      and "i < count" "4 \<le> es"
  shows "\<exists>s. utf8_decode (record_name file es i) = Some s \<and> \<not> is_valid_entry_name (rstrip 0 s)"
  using assms(1) unfolding loop_body_file [OF assms(2,3)]
  by (auto split: option.splits if_splits sum.splits)

lemma loop_body_invalid:
  assumes "utf8_decode (record_name file es i) = Some s" "\<not> is_valid_entry_name (rstrip 0 s)"
      and "i < count" "4 \<le> es"
  shows "loop_body (length file) (read_at file 4 (es * count)) es count i no = Inr None"
  using assms(1,2) unfolding loop_body_file [OF assms(3,4)] by simp

lemma loop_body_undecodable:
  assumes "utf8_decode (record_name file es i) = None"
      and "i < count" "4 \<le> es"
  shows "loop_body (length file) (read_at file 4 (es * count)) es count i no
         = Inl UnicodeDecodeError"
  using assms(1) unfolding loop_body_file [OF assms(2,3)] by simp

lemma loop_body_ok:
  assumes "utf8_decode (record_name file es i) = Some s" "is_valid_entry_name (rstrip 0 s)"
      and "i + 1 < count \<Longrightarrow> 4 + (i + 2) * es \<le> length file"
      and "i < count" "4 \<le> es"
  shows "\<exists>no' e. loop_body (length file) (read_at file 4 (es * count)) es count i no
                  = Inr (Some (no', e))"
proof (cases "i + 1 = count")
  case True
  then show ?thesis
    using assms(1,2) unfolding loop_body_file [OF assms(4,5)] by simp
next
  case False
  with assms(3,4) have "4 + (i + 2) * es \<le> length file" by simp
  with assms(5) have "4 + (i + 1) * es + (es - 4) + 4 \<le> length file" by simp
  from read_u32_ok [OF this] False show ?thesis
    using assms(1,2) unfolding loop_body_file [OF assms(4,5)] by simp
qed

lemma read_dir_None:
  assumes es: "4 \<le> es"
  shows "read_dir (length file) (read_at file 4 (es * count)) es count [k..<count] no dir = Inr None
     \<Longrightarrow> \<exists>j s. k \<le> j \<and> j < count \<and> utf8_decode (record_name file es j) = Some s
               \<and> \<not> is_valid_entry_name (rstrip 0 s)"
proof (induction "count - k" arbitrary: k no dir)
  case 0
  then show ?case by simp
next
  case (Suc n)
  then have k: "k < count" by simp
  then have upt: "[k..<count] = k # [Suc k..<count]" by (simp add: upt_conv_Cons)
  show ?case
  proof (cases "loop_body (length file) (read_at file 4 (es * count)) es count k no")
    case (Inl e)
    with Suc.prems show ?thesis unfolding upt by simp
  next
    case (Inr r)
    show ?thesis
    proof (cases r)
      case None
      from loop_body_NoneD [OF Inr [unfolded None] k es] k show ?thesis by auto
    next
      case (Some p)
      obtain no' e where p: "p = (no', e)" by (cases p)
      from Suc.prems Inr Some p
      have "read_dir (length file) (read_at file 4 (es * count)) es count [Suc k..<count] no'
              (dir @ [e]) = Inr None"
        unfolding upt by simp
      moreover have "n = count - Suc k" using Suc.hyps(2) by simp
      ultimately obtain j s where "Suc k \<le> j" "j < count"
        "utf8_decode (record_name file es j) = Some s" "\<not> is_valid_entry_name (rstrip 0 s)"
        using Suc.hyps(1) [of "Suc k" no' "dir @ [e]"] by blast
      then show ?thesis by (intro exI [of _ j] exI [of _ s]) simp
    qed
  qed
qed

lemma read_dir_reach:
  assumes es: "4 \<le> es" and j: "j \<le> count"
      and names: "\<forall>i. i < j \<longrightarrow> (\<exists>s. utf8_decode (record_name file es i) = Some s
                      \<and> is_valid_entry_name (rstrip 0 s))"
      and len: "4 + min (j + 1) count * es \<le> length file"
  shows "k \<le> j \<Longrightarrow>
     \<exists>no' dir'. read_dir (length file) (read_at file 4 (es * count)) es count [k..<count] no dir
                = read_dir (length file) (read_at file 4 (es * count)) es count [j..<count] no' dir'"
proof (induction "j - k" arbitrary: k no dir)
  case 0
  then have "k = j" by simp
  then show ?case by blast
next
  case (Suc n)
  then have kj: "k < j" by simp
  with j have k: "k < count" by simp
  then have upt: "[k..<count] = k # [Suc k..<count]" by (simp add: upt_conv_Cons)
  from names kj obtain s where s: "utf8_decode (record_name file es k) = Some s"
      "is_valid_entry_name (rstrip 0 s)" by blast
  have "4 + (k + 2) * es \<le> length file" if "k + 1 < count"
  proof -
    from that kj have "k + 2 \<le> min (j + 1) count" by simp
    then have "(k + 2) * es \<le> min (j + 1) count * es" by (rule mult_le_mono1)
    with len show ?thesis by simp
  qed
  from loop_body_ok [OF s this k es] obtain no' e where
    body: "loop_body (length file) (read_at file 4 (es * count)) es count k no = Inr (Some (no', e))"
    by blast
  have step: "read_dir (length file) (read_at file 4 (es * count)) es count [k..<count] no dir
      = read_dir (length file) (read_at file 4 (es * count)) es count [Suc k..<count] no' (dir @ [e])"
    unfolding upt by (simp add: body)
  have "n = j - Suc k" using Suc.hyps(2) by simp
  moreover have "Suc k \<le> j" using kj by simp
  ultimately show ?case
    using Suc.hyps(1) [of "Suc k" no' "dir @ [e]"] step by simp
qed

section \<open>Names that end with .iaf\<close>

lemma endswith_rev: "endswith s suf \<longleftrightarrow> take (length suf) (rev s) = rev suf"
proof
  assume "endswith s suf"
  then have l: "length suf \<le> length s" and d: "drop (length s - length suf) s = suf"
    by (simp_all add: endswith_def)
  have "take (length suf) (rev s) = rev (drop (length s - length suf) s)"
    using l by (simp add: rev_drop)
  with d show "take (length suf) (rev s) = rev suf" by simp
next
  assume a: "take (length suf) (rev s) = rev suf"
  then have "length (take (length suf) (rev s)) = length suf" by simp
  then have l: "length suf \<le> length s" by simp
  have "rev (drop (length s - length suf) s) = take (length suf) (rev s)"
    using l by (simp add: rev_drop)
  with a have "rev (drop (length s - length suf) s) = rev suf" by simp
  then show "endswith s suf" using l by (simp add: endswith_def)
qed

lemma rev_lower: "rev (lower s) = concat (map (\<lambda>c. rev (lower_cp c)) (rev s))"
  by (simp add: lower_def rev_concat rev_map comp_def)

lemma lower_cp_cases:
  "lower_cp c = [0x66] \<longleftrightarrow> c = 0x66 \<or> c = 0x46"
  "lower_cp c = [0x61] \<longleftrightarrow> c = 0x61 \<or> c = 0x41"
  "lower_cp c = [0x69] \<longleftrightarrow> c = 0x69 \<or> c = 0x49"
  "lower_cp c = [0x2E] \<longleftrightarrow> c = 0x2E"
  unfolding lower_cp_def by (simp_all; arith)+


lemma rev_lower_cp_cases:
  "rev (lower_cp c) = [c + 0x20] \<or> rev (lower_cp c) = [0x307, 0x69]
   \<or> rev (lower_cp c) = [0x6B] \<or> rev (lower_cp c) = [c]"
  by (simp add: lower_cp_def)

lemma take_rev_lower_cp:
  assumes "x \<noteq> 0x307"
  shows "take (Suc n) (rev (lower_cp c) @ r) = x # t \<longleftrightarrow> lower_cp c = [x] \<and> take n r = t"
proof (cases "c = 0x130")
  case True
  then show ?thesis using assms by (simp add: lower_cp_def)
next
  case False
  then have "\<exists>y. lower_cp c = [y]"
    by (simp add: lower_cp_def)
  then obtain y where y: "lower_cp c = [y]" ..
  then show ?thesis by simp
qed

lemma take4_lower_iaf:
  "take (Suc (Suc (Suc (Suc 0)))) (concat (map (\<lambda>c. rev (lower_cp c)) r)) = [0x66, 0x61, 0x69, 0x2E]
   \<longleftrightarrow> (case r of
        c3 # c2 # c1 # c0 # p \<Rightarrow>
          c0 = 0x2E \<and> (c1 = 0x69 \<or> c1 = 0x49) \<and> (c2 = 0x61 \<or> c2 = 0x41)
          \<and> (c3 = 0x66 \<or> c3 = 0x46)
      | _ \<Rightarrow> False)"
proof -
  define g where "g = (\<lambda>r. concat (map (\<lambda>c. rev (lower_cp c)) r))"
  have nil: "take (Suc n) (g []) \<noteq> x # t" for n x t
    by (simp add: g_def)
  have step: "take (Suc n) (g (c # r)) = x # t \<longleftrightarrow> lower_cp c = [x] \<and> take n (g r) = t"
    if "x \<noteq> 0x307" for n c r x t
    using take_rev_lower_cp [OF that, of n c "g r" t] by (simp add: g_def)
  have "take (Suc (Suc (Suc (Suc 0)))) (g r) = [0x66, 0x61, 0x69, 0x2E]
   \<longleftrightarrow> (case r of
        c3 # c2 # c1 # c0 # p \<Rightarrow>
          c0 = 0x2E \<and> (c1 = 0x69 \<or> c1 = 0x49) \<and> (c2 = 0x61 \<or> c2 = 0x41)
          \<and> (c3 = 0x66 \<or> c3 = 0x46)
      | _ \<Rightarrow> False)"
  proof (cases r)
    case Nil
    then show ?thesis by (simp add: nil)
  next
    case r3: (Cons c3 r3)
    show ?thesis
    proof (cases r3)
      case Nil
      then show ?thesis unfolding r3 by (simp add: step nil)
    next
      case r2: (Cons c2 r2)
      show ?thesis
      proof (cases r2)
        case Nil
        then show ?thesis unfolding r3 r2 by (simp add: step nil)
      next
        case r1: (Cons c1 r1)
        show ?thesis
        proof (cases r1)
          case Nil
          then show ?thesis unfolding r3 r2 r1 by (simp add: step nil)
        next
          case (Cons c0 p)
          then show ?thesis unfolding r3 r2 r1
            by (simp add: step lower_cp_cases conj_ac)
        qed
      qed
    qed
  qed
  then show ?thesis by (simp add: g_def)
qed

lemma endswith_lower_iaf: "endswith (lower name) (lit ''.iaf'') = ends_with_iaf name"
  using take4_lower_iaf [of "rev name"]
  by (simp add: endswith_rev rev_lower ends_with_iaf_def lit_def numeral_eq_Suc)

section \<open>What an accepted archive yields\<close>

lemma record_field_0: "4 \<le> es \<Longrightarrow> record_field file es 0 = u32_at file es"
  by (simp add: record_field_def)

lemma selected_layout_SomeD:
  assumes "selected_layout file = Some es"
  shows "es = 0x14 \<or> es = 0x20"
    and "4 + u32_at file 0 * int es = u32_at file es mod 2 ^ 30"
  using assms by (auto simp add: selected_layout_def Let_def split: if_splits)

lemma open_index_SomeD:
  assumes "open_index fname file count es (record_field file es 0) = Inr (Some arc)"
      and es: "4 \<le> es"
  shows "arc = \<lparr>filename = fname, entries = map (decoded_entry file es count) [0..<count]\<rparr>"
    and "\<forall>i. i < count \<longrightarrow> (\<exists>s. utf8_decode (record_name file es i) = Some s
                  \<and> is_valid_entry_name (rstrip 0 s))"
    and "\<forall>i. i + 1 < count \<longrightarrow> 4 + (i + 2) * es \<le> length file"
proof -
  from assms(1) obtain d where
    d: "read_dir (length file) (read_at file 4 (es * count)) es count [0..<count]
          (record_field file es 0) [] = Inr (Some d)"
    and arc: "arc = \<lparr>filename = fname, entries = d\<rparr>"
    by (auto simp add: open_index_def Let_def split: sum.splits option.splits)
  from read_dir_Some [OF es d] 
  have "d = [] @ map (decoded_entry file es count) [0..<count]
         \<and> (\<forall>i. 0 \<le> i \<and> i < count \<longrightarrow>
               (\<exists>s. utf8_decode (record_name file es i) = Some s
                  \<and> is_valid_entry_name (rstrip 0 s)))
         \<and> (\<forall>i. 0 \<le> i \<and> i + 1 < count \<longrightarrow> 4 + (i + 2) * es \<le> length file)"
    by simp
  with arc show "arc = \<lparr>filename = fname, entries = map (decoded_entry file es count) [0..<count]\<rparr>"
    and "\<forall>i. i < count \<longrightarrow> (\<exists>s. utf8_decode (record_name file es i) = Some s
                  \<and> is_valid_entry_name (rstrip 0 s))"
    and "\<forall>i. i + 1 < count \<longrightarrow> 4 + (i + 2) * es \<le> length file"
    by simp_all
qed

lemma try_open_SomeD:
  assumes "try_open fname file = Inr (Some arc)"
  shows "\<exists>es. 0x24 \<le> length file \<and> is_sane_count (u32_at file 0)
           \<and> selected_layout file = Some es
           \<and> arc = \<lparr>filename = fname,
                     entries = map (decoded_entry file es (nat (u32_at file 0)))
                                 [0..<nat (u32_at file 0)]\<rparr>
           \<and> (\<forall>i. i < nat (u32_at file 0) \<longrightarrow>
                 (\<exists>s. utf8_decode (record_name file es i) = Some s
                    \<and> is_valid_entry_name (rstrip 0 s)))
           \<and> 4 + nat (u32_at file 0) * es \<le> length file"
proof -
  have l4: "4 \<le> length file"
    using assms try_open_short [of "file" fname] by (cases "length file < 4") simp_all
  have sane: "is_sane_count (u32_at file 0)"
    using assms try_open_insane [OF l4, of fname] by (cases "is_sane_count (u32_at file 0)") simp_all
  have l: "0x24 \<le> length file"
    using assms try_open_no_probe [OF l4 sane, of fname] by (cases "length file < 0x24") simp_all
  note lay = try_open_layout [OF l sane, of fname]
  from assms lay obtain es where es: "selected_layout file = Some es"
    by (cases "selected_layout file") simp_all
  note es_cases = selected_layout_SomeD(1) [OF es]
  then have es4: "4 \<le> es" by auto
  from assms lay es
  have "open_index fname file (nat (u32_at file 0)) es (record_field file es 0) = Inr (Some arc)"
    by (simp add: record_field_0 [OF es4])
  note o = open_index_SomeD [OF this es4]
  have "4 + nat (u32_at file 0) * es \<le> length file"
  proof (cases "nat (u32_at file 0) = 1")
    case True
    with l es_cases show ?thesis by auto
  next
    case False
    with sane obtain m where m: "nat (u32_at file 0) = m + 2"
      by (cases "nat (u32_at file 0)"; cases "nat (u32_at file 0) - 1")
         (auto simp add: is_sane_count_def)
    with o(3) have "4 + (m + 2) * es \<le> length file" by simp
    with m show ?thesis by simp
  qed
  with l sane es o(1,2) show ?thesis by blast
qed

lemma make_entry_sel [simp]:
  "name_of (make_entry n f off sz) = n"
  "offset_of (make_entry n f off sz) = off"
  "size_of (make_entry n f off sz) = sz"
  by (simp_all add: make_entry_def)

lemma record_field_bounds:
  assumes "4 + (i + 1) * es \<le> length file" "4 \<le> es"
  shows "0 \<le> record_field file es i" "record_field file es i < 2 ^ 32"
    "mask_offset (record_field file es i) = record_field file es i mod 2 ^ 30"
proof -
  have "4 + i * es + (es - 4) + 4 \<le> length file"
    using assms by simp
  from u32_at_bounds [OF this] mask_offset_u32_at [OF this]
  show "0 \<le> record_field file es i" "record_field file es i < 2 ^ 32"
    "mask_offset (record_field file es i) = record_field file es i mod 2 ^ 30"
    by (simp_all add: record_field_def)
qed

lemma record_in_file:
  fixes i count es :: nat
  assumes "4 + count * es \<le> n" "i < count"
  shows "4 + (i + 1) * es \<le> n"
proof -
  have "(i + 1) * es \<le> count * es"
    using assms(2) by (intro mult_le_mono1) simp
  with assms(1) show ?thesis by simp
qed

lemma first_offset:
  assumes "selected_layout file = Some es" "0x24 \<le> length file"
  shows "mask_offset (record_field file es 0) = 4 + u32_at file 0 * int es"
proof -
  from selected_layout_SomeD [OF assms(1)]
  have es: "es = 0x14 \<or> es = 0x20"
    and eq: "4 + u32_at file 0 * int es = u32_at file es mod 2 ^ 30" by simp_all
  from es assms(2) have "es + 4 \<le> length file" by auto
  from mask_offset_u32_at [OF this] eq es show ?thesis
    by (auto simp add: record_field_def)
qed

section \<open>Sums and ranges\<close>

lemma sum_list_telescope:
  fixes b :: "nat \<Rightarrow> int"
  shows "sum_list (map (\<lambda>i. b (Suc i) - b i) [0..<n]) = b n - b 0"
  by (induction n) simp_all

lemma contiguous_nth:
  "(\<And>i. Suc i < length d \<Longrightarrow> offset_of (d ! i) + size_of (d ! i) = offset_of (d ! Suc i))
   \<Longrightarrow> contiguous d"
proof (induction d rule: contiguous.induct)
  case (1 a b rest)
  from "1.prems" [of 0] have "offset_of a + size_of a = offset_of b" by simp
  moreover have "contiguous (b # rest)"
  proof (rule "1.IH")
    fix i assume "Suc i < length (b # rest)"
    with "1.prems" [of "Suc i"]
    show "offset_of ((b # rest) ! i) + size_of ((b # rest) ! i) = offset_of ((b # rest) ! Suc i)"
      by simp
  qed
  ultimately show ?case by simp
qed simp_all

lemma contiguous_increasing:
  "contiguous d \<Longrightarrow> \<forall>e\<in>set d. 0 < size_of e \<Longrightarrow> sorted_wrt (<) (map offset_of d)"
proof (induction d rule: contiguous.induct)
  case (1 a b rest)
  then have ab: "offset_of a < offset_of b" and s: "sorted_wrt (<) (map offset_of (b # rest))"
    by simp_all
  from s have "\<forall>x\<in>set (map offset_of rest). offset_of b < x" by simp
  with ab have "\<forall>x\<in>set (map offset_of (b # rest)). offset_of a < x" by auto
  with s show ?case by simp
qed simp_all

lemma contiguous_no_overlap:
  "contiguous d \<Longrightarrow> \<forall>e\<in>set d. 0 \<le> size_of e
   \<Longrightarrow> sorted_wrt (\<lambda>a b. offset_of a + size_of a \<le> offset_of b) d"
proof (induction d rule: contiguous.induct)
  case (1 a b rest)
  then have ab: "offset_of a + size_of a = offset_of b" and b: "0 \<le> size_of b"
    and s: "sorted_wrt (\<lambda>a b. offset_of a + size_of a \<le> offset_of b) (b # rest)"
    by simp_all
  from s b have "\<forall>x\<in>set rest. offset_of b \<le> offset_of x" by auto
  with ab have "\<forall>x\<in>set (b # rest). offset_of a + size_of a \<le> offset_of x" by auto
  with s show ?case by simp
qed simp_all

lemma contiguous_nondecreasing:
  assumes "contiguous d" "\<forall>e\<in>set d. 0 \<le> size_of e"
  shows "sorted (map offset_of d)"
proof -
  have "sorted_wrt (\<lambda>a b. offset_of a \<le> offset_of b) d"
  proof (rule sorted_wrt_mono_rel [OF _ contiguous_no_overlap [OF assms]])
    fix a b assume "a \<in> set d" "offset_of a + size_of a \<le> offset_of b"
    with assms(2) show "offset_of a \<le> offset_of b" by force
  qed
  then show ?thesis by (simp add: sorted_map)
qed

text \<open>The values between which the sizes are differences.\<close>

lemma decoded_entry_size:
  assumes "i < count"
  shows "size_of (decoded_entry file es count i)
     = mask_offset (if Suc i = count then int (length file) else record_field file es (Suc i))
       - mask_offset (if i = count then int (length file) else record_field file es i)"
  using assms by (simp add: decoded_entry_def next_field_def)

lemma decoded_entry_offset:
  "offset_of (decoded_entry file es count i) = mask_offset (record_field file es i)"
  by (simp add: decoded_entry_def)

lemma sum_sizes:
  assumes "0 < count"
  shows "sum_list (map size_of (map (decoded_entry file es count) [0..<count]))
         = mask_offset (int (length file)) - mask_offset (record_field file es 0)"
proof -
  define b where "b = (\<lambda>i. mask_offset (if i = count then int (length file)
                                          else record_field file es i))"
  have "map size_of (map (decoded_entry file es count) [0..<count])
        = map (\<lambda>i. b (Suc i) - b i) [0..<count]"
    by (simp add: decoded_entry_size b_def)
  then have "sum_list (map size_of (map (decoded_entry file es count) [0..<count])) = b count - b 0"
    by (simp only: sum_list_telescope)
  then show ?thesis using assms by (simp add: b_def)
qed

section \<open>Where the loop stops\<close>

lemma invalid_name_iff:
  "\<not> is_valid_entry_name n \<longleftrightarrow> n = [] \<or> (\<exists>c\<in>set forbidden_chars. c \<in> set n)"
  by (simp add: is_valid_entry_name_def list_ex_iff)

lemma upt_from: "j < count \<Longrightarrow> [j..<count] = j # [Suc j..<count]"
  by (simp add: upt_conv_Cons)

lemma open_index_stops:
  assumes es: "4 \<le> es" and j: "j < count"
      and len: "4 + (j + 1) * es \<le> length file"
      and names: "\<forall>i. i < j \<longrightarrow> (\<exists>s. utf8_decode (record_name file es i) = Some s
                      \<and> is_valid_entry_name (rstrip 0 s))"
  shows "utf8_decode (record_name file es j) = Some s \<Longrightarrow> \<not> is_valid_entry_name (rstrip 0 s)
           \<Longrightarrow> open_index fname file count es no = Inr None"
    and "utf8_decode (record_name file es j) = None
           \<Longrightarrow> open_index fname file count es no = Inl UnicodeDecodeError"
proof -
  from j have "j \<le> count" and m: "min (j + 1) count = j + 1" by simp_all
  from len m have len': "4 + min (j + 1) count * es \<le> length file" by simp
  from read_dir_reach [OF es \<open>j \<le> count\<close> names len', of 0 no "[]"]
  obtain no' dir' where
    r: "read_dir (length file) (read_at file 4 (es * count)) es count [0..<count] no []
        = read_dir (length file) (read_at file 4 (es * count)) es count [j..<count] no' dir'"
    by auto
  show "open_index fname file count es no = Inr None"
    if "utf8_decode (record_name file es j) = Some s" "\<not> is_valid_entry_name (rstrip 0 s)"
    using loop_body_invalid [OF that j es, of no']
    by (simp add: open_index_def r upt_from [OF j])
  show "open_index fname file count es no = Inl UnicodeDecodeError"
    if "utf8_decode (record_name file es j) = None"
    using loop_body_undecodable [OF that j es, of no']
    by (simp add: open_index_def r upt_from [OF j])
qed

lemma open_index_NoneD:
  assumes "open_index fname file count es no = Inr None" and es: "4 \<le> es"
  shows "\<exists>j s. j < count \<and> utf8_decode (record_name file es j) = Some s
               \<and> \<not> is_valid_entry_name (rstrip 0 s)"
proof -
  from assms(1)
  have "read_dir (length file) (read_at file 4 (es * count)) es count [0..<count] no [] = Inr None"
    by (auto simp add: open_index_def Let_def split: sum.splits option.splits)
  from read_dir_None [OF es this] show ?thesis by blast
qed

lemma selected_layout_None:
  "selected_layout file = None \<longleftrightarrow>
     4 + u32_at file 0 * 0x14 \<noteq> u32_at file 0x14 mod 2 ^ 30
     \<and> 4 + u32_at file 0 * 0x20 \<noteq> u32_at file 0x20 mod 2 ^ 30"
  by (simp add: selected_layout_def Let_def)

lemma selected_layout_0x14:
  "selected_layout file = Some 0x14 \<longleftrightarrow> 4 + u32_at file 0 * 0x14 = u32_at file 0x14 mod 2 ^ 30"
  by (simp add: selected_layout_def Let_def)

lemma selected_layout_0x20:
  "selected_layout file = Some 0x20 \<longleftrightarrow>
     4 + u32_at file 0 * 0x14 \<noteq> u32_at file 0x14 mod 2 ^ 30
     \<and> 4 + u32_at file 0 * 0x20 = u32_at file 0x20 mod 2 ^ 30"
  by (simp add: selected_layout_def Let_def)

section \<open>UTF-8: decoding what was encoded\<close>

lemma unat_byte: "x < 256 \<Longrightarrow> unat (of_nat x :: byte) = x"
  by (simp add: unat_of_nat)

lemma decode_cp1:
  assumes "c < 0x80"
  shows "utf8_decode (utf8_encode_cp c @ bs) = cons_opt c (utf8_decode bs)"
  using assms by (simp add: utf8_encode_cp_def unat_byte)

lemma decode_cp2:
  assumes "0x80 \<le> c" "c < 0x800"
  shows "utf8_decode (utf8_encode_cp c @ bs) = cons_opt c (utf8_decode bs)"
proof -
  define a0 where "a0 = 0xC0 + c div 64"
  define a1 where "a1 = 0x80 + c mod 64"
  have e: "utf8_encode_cp c = [of_nat a0, of_nat a1]"
    using assms by (simp add: utf8_encode_cp_def a0_def a1_def)
  have b0: "a0 < 256" "0xC2 \<le> a0" "a0 < 0xE0"
    using assms by (simp_all add: a0_def)
  have b1: "a1 < 256" "0x80 \<le> a1" "a1 \<le> 0xBF"
    by (simp_all add: a1_def)
  have v: "(a0 - 0xC0) * 64 + (a1 - 0x80) = c"
    by (simp add: a0_def a1_def)
  have u: "unat (of_nat a0 :: byte) = a0" "unat (of_nat a1 :: byte) = a1"
    using b0(1) b1(1) by (simp_all only: unat_byte)
  show ?thesis
    unfolding e using b0 b1 v
    by (simp add: u in_range_def del: of_nat_add of_nat_numeral)
qed


lemma mod_window:
  fixes x b w m :: nat
  assumes "b \<le> x" "x < b + w" "b mod m = 0" "w \<le> m"
  shows "x mod m = x - b"
proof -
  have "x = b + (x - b)" using assms(1) by simp
  then have "x mod m = (b + (x - b)) mod m" by simp
  also have "\<dots> = (b mod m + (x - b)) mod m" by (simp only: mod_add_left_eq)
  also have "\<dots> = (x - b) mod m" using assms(3) by simp
  also have "\<dots> = x - b" using assms(1,2,4) by simp
  finally show ?thesis .
qed

lemma cont_below_surrogates:
  fixes c :: nat
  assumes "0xD000 \<le> c" "c < 0xD800"
  shows "c div 64 mod 64 \<le> 31"
proof -
  from assms have "832 \<le> c div 64" "c div 64 < 832 + 32" by simp_all
  from mod_window [OF this, of 64] have "c div 64 mod 64 = c div 64 - 832" by simp
  with \<open>c div 64 < 832 + 32\<close> show ?thesis by simp
qed

lemma cont_top_plane:
  fixes c :: nat
  assumes "0x100000 \<le> c" "c < 0x110000"
  shows "c div 4096 mod 64 \<le> 15"
proof -
  from assms have "256 \<le> c div 4096" "c div 4096 < 256 + 16" by simp_all
  from mod_window [OF this, of 64] have "c div 4096 mod 64 = c div 4096 - 256" by simp
  with \<open>c div 4096 < 256 + 16\<close> show ?thesis by simp
qed

lemma split_3_bytes:
  fixes c :: nat
  shows "c = c div 4096 * 4096 + c div 64 mod 64 * 64 + c mod 64"
proof -
  have "c = c div 64 * 64 + c mod 64" by simp
  moreover have "c div 64 = c div 64 div 64 * 64 + c div 64 mod 64" by simp
  moreover have "c div 64 div 64 = c div 4096" by (simp add: div_mult2_eq)
  ultimately have "c = (c div 4096 * 64 + c div 64 mod 64) * 64 + c mod 64" by simp
  then show ?thesis by (simp add: algebra_simps)
qed


lemma scale_64:
  fixes q r :: nat
  shows "(q * 64 + r) * 4096 = q * 262144 + r * 4096"
  by simp

lemma split_4_bytes:
  fixes c :: nat
  shows "c = c div 262144 * 262144 + c div 4096 mod 64 * 4096 + c div 64 mod 64 * 64 + c mod 64"
proof -
  have "c div 4096 * 4096 = (c div 4096 div 64 * 64 + c div 4096 mod 64) * 4096"
    by (simp only: div_mult_mod_eq)
  also have "\<dots> = c div 4096 div 64 * 262144 + c div 4096 mod 64 * 4096"
    by (rule scale_64)
  also have "c div 4096 div 64 = c div 262144"
    by (simp add: div_mult2_eq)
  finally have "c div 4096 * 4096 = c div 262144 * 262144 + c div 4096 mod 64 * 4096" .
  with split_3_bytes [of c] show ?thesis by (simp only:)
qed

lemma decode_cp3:
  assumes "0x800 \<le> c" "c < 0x10000" "valid_code_point c"
  shows "utf8_decode (utf8_encode_cp c @ bs) = cons_opt c (utf8_decode bs)"
proof -
  define a0 where "a0 = 0xE0 + c div 4096"
  define a1 where "a1 = 0x80 + c div 64 mod 64"
  define a2 where "a2 = 0x80 + c mod 64"
  have e: "utf8_encode_cp c = [of_nat a0, of_nat a1, of_nat a2]"
    using assms by (simp add: utf8_encode_cp_def a0_def a1_def a2_def)
  have b0: "a0 < 256" "0xE0 \<le> a0" "a0 < 0xF0"
    using assms by (simp_all add: a0_def)
  have b1: "a1 < 256" "0x80 \<le> a1" "a1 \<le> 0xBF"
    by (simp_all add: a1_def)
  have b2: "a2 < 256" "0x80 \<le> a2" "a2 \<le> 0xBF"
    by (simp_all add: a2_def)
  have lo: "0xA0 \<le> a1" if "a0 = 0xE0"
  proof -
    from that have "c < 4096" by (simp add: a0_def)
    with assms(1) have "32 \<le> c div 64" "c div 64 < 64" by simp_all
    then show ?thesis by (simp add: a1_def)
  qed
  have hi: "a1 \<le> 0x9F" if "a0 = 0xED"
  proof -
    from that have "c div 4096 = 13" by (simp add: a0_def)
    then have l: "0xD000 \<le> c" and h: "c < 0xE000" by simp_all
    with assms(3) have c: "c < 0xD800" by (simp add: valid_code_point_def)
    from cont_below_surrogates [OF l c] show ?thesis by (simp add: a1_def)
  qed
  have v: "(a0 - 0xE0) * 4096 + (a1 - 0x80) * 64 + (a2 - 0x80) = c"
    using split_3_bytes [of c] by (simp add: a0_def a1_def a2_def)
  have u: "unat (of_nat a0 :: byte) = a0" "unat (of_nat a1 :: byte) = a1"
      "unat (of_nat a2 :: byte) = a2"
    using b0(1) b1(1) b2(1) by (simp_all only: unat_byte)
  have r: "in_range (if a0 = 0xE0 then 0xA0 else 0x80) (if a0 = 0xED then 0x9F else 0xBF)
             (of_nat a1)"
    using b1 lo hi by (simp add: in_range_def u)
  have r2: "in_range 0x80 0xBF (of_nat a2)"
    using b2 by (simp add: in_range_def u)
  have n: "\<not> a0 < 0x80" "\<not> a0 < 0xC2" "\<not> a0 < 0xE0"
    using b0 by simp_all
  show ?thesis
    unfolding e append_Cons append_Nil utf8_decode.simps u
    using n b0(3) r r2 v by (simp only: if_True if_False list.case simp_thms u)
qed

lemma decode_cp4:
  assumes "0x10000 \<le> c" "c < 0x110000"
  shows "utf8_decode (utf8_encode_cp c @ bs) = cons_opt c (utf8_decode bs)"
proof -
  define a0 where "a0 = 0xF0 + c div 262144"
  define a1 where "a1 = 0x80 + c div 4096 mod 64"
  define a2 where "a2 = 0x80 + c div 64 mod 64"
  define a3 where "a3 = 0x80 + c mod 64"
  have e: "utf8_encode_cp c = [of_nat a0, of_nat a1, of_nat a2, of_nat a3]"
    using assms by (simp add: utf8_encode_cp_def a0_def a1_def a2_def a3_def)
  have b0: "a0 < 256" "0xF0 \<le> a0" "a0 < 0xF5"
    using assms by (simp_all add: a0_def)
  have b1: "a1 < 256" "0x80 \<le> a1" "a1 \<le> 0xBF"
    by (simp_all add: a1_def)
  have b2: "a2 < 256" "0x80 \<le> a2" "a2 \<le> 0xBF"
    by (simp_all add: a2_def)
  have b3: "a3 < 256" "0x80 \<le> a3" "a3 \<le> 0xBF"
    by (simp_all add: a3_def)
  have lo: "0x90 \<le> a1" if "a0 = 0xF0"
  proof -
    from that have "c < 262144" by (simp add: a0_def)
    with assms(1) have "16 \<le> c div 4096" "c div 4096 < 64" by simp_all
    then show ?thesis by (simp add: a1_def)
  qed
  have hi: "a1 \<le> 0x8F" if "a0 = 0xF4"
  proof -
    from that have "c div 262144 = 4" by (simp add: a0_def)
    then have l: "0x100000 \<le> c" by simp
    from cont_top_plane [OF l assms(2)] show ?thesis by (simp add: a1_def)
  qed
  have v: "(a0 - 0xF0) * 262144 + (a1 - 0x80) * 4096 + (a2 - 0x80) * 64 + (a3 - 0x80) = c"
    using split_4_bytes [of c] by (simp add: a0_def a1_def a2_def a3_def)
  have u: "unat (of_nat a0 :: byte) = a0" "unat (of_nat a1 :: byte) = a1"
      "unat (of_nat a2 :: byte) = a2" "unat (of_nat a3 :: byte) = a3"
    using b0(1) b1(1) b2(1) b3(1) by (simp_all only: unat_byte)
  have r: "in_range (if a0 = 0xF0 then 0x90 else 0x80) (if a0 = 0xF4 then 0x8F else 0xBF)
             (of_nat a1)"
    using b1 lo hi by (simp add: in_range_def u)
  have r2: "in_range 0x80 0xBF (of_nat a2)" "in_range 0x80 0xBF (of_nat a3)"
    using b2 b3 by (simp_all add: in_range_def u)
  have n: "\<not> a0 < 0x80" "\<not> a0 < 0xC2" "\<not> a0 < 0xE0" "\<not> a0 < 0xF0"
    using b0 by simp_all
  show ?thesis
    unfolding e append_Cons append_Nil utf8_decode.simps u
    using n b0(3) r r2 v by (simp only: if_True if_False list.case simp_thms u)
qed

lemma decode_encode_cp:
  assumes "valid_code_point c"
  shows "utf8_decode (utf8_encode_cp c @ bs) = cons_opt c (utf8_decode bs)"
proof -
  from assms have "c < 0x110000" by (auto simp add: valid_code_point_def)
  then consider "c < 0x80" | "0x80 \<le> c" "c < 0x800" | "0x800 \<le> c" "c < 0x10000"
    | "0x10000 \<le> c" "c < 0x110000"
    by linarith
  then show ?thesis
    using assms by cases (simp_all add: decode_cp1 decode_cp2 decode_cp3 decode_cp4)
qed

lemma decode_encode:
  "list_all valid_code_point s \<Longrightarrow> utf8_decode bs = Some t
   \<Longrightarrow> utf8_decode (utf8_encode s @ bs) = Some (s @ t)"
  by (induction s) (simp_all add: utf8_encode_def decode_encode_cp cons_opt_def)

lemma decode_nulls: "utf8_decode (replicate k 0) = Some (replicate k 0)"
  by (induction k) (simp_all add: cons_opt_def)

lemma decode_name_field:
  "list_all valid_code_point name
   \<Longrightarrow> utf8_decode (name_field rs name)
       = Some (name @ replicate (rs - 4 - length (utf8_encode name)) 0)"
  by (simp add: name_field_def decode_encode decode_nulls)

lemma rstrip_nulls:
  assumes "name \<noteq> []" "last name \<noteq> 0"
  shows "rstrip 0 (name @ replicate k 0) = name"
proof -
  have "dropWhile (\<lambda>x. x = 0) (replicate k 0 @ rev name) = rev name"
    using assms by (cases "rev name") (auto simp add: dropWhile_append last_rev)
  then show ?thesis by (simp add: rstrip_def)
qed

section \<open>The bytes of a serialized archive\<close>

lemma split_u32:
  fixes v :: int
  shows "v = v mod 256 + 256 * (v div 256 mod 256) + 65536 * (v div 65536 mod 256)
             + 16777216 * (v div 16777216)"
proof -
  have a: "v = v div 256 * 256 + v mod 256" by simp
  have b: "v div 256 = v div 256 div 256 * 256 + v div 256 mod 256" by simp
  have b': "v div 256 div 256 = v div 65536" by (simp add: zdiv_zmult2_eq)
  have c: "v div 65536 = v div 65536 div 256 * 256 + v div 65536 mod 256" by simp
  have c': "v div 65536 div 256 = v div 16777216" by (simp add: zdiv_zmult2_eq)
  from c c' have "v div 65536 = v div 16777216 * 256 + v div 65536 mod 256" by simp
  with b b' have "v div 256 = (v div 16777216 * 256 + v div 65536 mod 256) * 256 + v div 256 mod 256"
    by simp
  with a have "v = ((v div 16777216 * 256 + v div 65536 mod 256) * 256 + v div 256 mod 256) * 256
                   + v mod 256"
    by simp
  then show ?thesis by (simp add: algebra_simps)
qed

lemma uint_byte: "uint (word_of_int x :: byte) = x mod 256"
  by (simp add: uint_word_of_int)

lemma unpack_pack:
  assumes "0 \<le> v" "v < 2 ^ 32"
  shows "unpack_u32 (pack_u32 v) = Inr v"
proof -
  from assms have "0 \<le> v div 16777216" "v div 16777216 < 256" by simp_all
  then have m: "v div 16777216 mod 256 = v div 16777216" by simp
  have e: "v mod 256 + 256 * (v div 256 mod 256) + 65536 * (v div 65536 mod 256)
             + 16777216 * (v div 16777216 mod 256) = v"
    unfolding m by (rule split_u32 [symmetric])
  show ?thesis
    by (simp only: pack_u32_def unpack_u32.simps uint_byte e)
qed

lemma length_pack [simp]: "length (pack_u32 v) = 4"
  by (simp add: pack_u32_def)

lemma length_name_field:
  "length (utf8_encode name) \<le> rs - 4 \<Longrightarrow> length (name_field rs name) = rs - 4"
  by (simp add: name_field_def)

lemma valid_item_fits:
  "valid_item rs (name, flags, payload) \<Longrightarrow> length (name_field rs name) = rs - 4"
  by (simp add: valid_item_def length_name_field)

lemma length_index_records:
  assumes "4 \<le> rs"
  shows "\<forall>it\<in>set items. valid_item rs it \<Longrightarrow> length (index_records rs off items) = rs * length items"
proof (induction items arbitrary: off)
  case Nil
  then show ?case by simp
next
  case (Cons it items)
  obtain name flags payload where it: "it = (name, flags, payload)" by (cases it)
  from Cons.prems it have "length (name_field rs name) = rs - 4"
    by (auto dest: valid_item_fits)
  with Cons assms show ?case by (simp add: it)
qed

lemma payloads_Cons [simp]: "payloads ((name, flags, payload) # items) = payload @ payloads items"
  by (simp add: payloads_def)

lemma payloads_Nil [simp]: "payloads [] = []"
  by (simp add: payloads_def)

lemma drop_index_records:
  assumes "4 \<le> rs"
  shows "\<forall>it\<in>set items. valid_item rs it \<Longrightarrow> i < length items \<Longrightarrow> items ! i = (name, flags, payload)
     \<Longrightarrow> \<exists>rest. drop (i * rs) (index_records rs off items)
           = name_field rs name
             @ pack_u32 (flags * 2 ^ 30 + (off + int (length (payloads (take i items)))))
             @ rest"
proof (induction items arbitrary: off i)
  case Nil
  then show ?case by simp
next
  case (Cons it items)
  obtain n0 f0 p0 where it: "it = (n0, f0, p0)" by (cases it)
  show ?case
  proof (cases i)
    case 0
    with Cons.prems it show ?thesis by simp
  next
    case (Suc k)
    from Cons.prems it have l: "length (name_field rs n0) = rs - 4"
      by (auto dest: valid_item_fits)
    from Cons.prems Suc have k: "k < length items" "items ! k = (name, flags, payload)"
      "\<forall>it\<in>set items. valid_item rs it" by simp_all
    from Cons.IH [OF k(3) k(1) k(2), of "off + int (length p0)"] obtain rest where
      r: "drop (k * rs) (index_records rs (off + int (length p0)) items)
           = name_field rs name
             @ pack_u32 (flags * 2 ^ 30 + (off + int (length p0) + int (length (payloads (take k items)))))
             @ rest" by blast
    have "drop (i * rs) (index_records rs off (it # items))
          = drop (k * rs) (index_records rs (off + int (length p0)) items)"
      using l assms by (simp add: it Suc)
    with r show ?thesis by (simp add: it Suc add.assoc)
  qed
qed

lemma length_serialize:
  assumes "4 \<le> rs" "\<forall>it\<in>set items. valid_item rs it"
  shows "length (serialize rs items) = 4 + rs * length items + length (payloads items)"
  using length_index_records [OF assms] by (simp add: serialize_def)

lemma drop_serialize:
  assumes "4 \<le> rs" "\<forall>it\<in>set items. valid_item rs it"
      and "i < length items" "items ! i = (name, flags, payload)"
  shows "\<exists>rest. drop (4 + i * rs) (serialize rs items)
           = name_field rs name
             @ pack_u32 (flags * 2 ^ 30
                 + (4 + int (length items) * int rs + int (length (payloads (take i items)))))
             @ rest"
proof -
  from drop_index_records [OF assms, of "4 + int (length items) * int rs"] obtain rest where
    r: "drop (i * rs) (index_records rs (4 + int (length items) * int rs) items)
           = name_field rs name
             @ pack_u32 (flags * 2 ^ 30
                 + (4 + int (length items) * int rs + int (length (payloads (take i items)))))
             @ rest" by blast
  have "i * rs \<le> rs * length items"
    using assms(3) by (simp add: mult.commute)
  then have "i * rs \<le> length (index_records rs (4 + int (length items) * int rs) items)"
    using length_index_records [OF assms(1,2)] by simp
  then have "drop (4 + i * rs) (serialize rs items)
      = drop (i * rs) (index_records rs (4 + int (length items) * int rs) items) @ payloads items"
    by (simp add: serialize_def)
  with r show ?thesis by simp
qed

lemma length_payloads_take: "length (payloads (take i items)) \<le> length (payloads items)"
proof (induction items arbitrary: i)
  case Nil
  then show ?case by simp
next
  case (Cons it items)
  obtain n f p where it: "it = (n, f, p)" by (cases it)
  show ?case using Cons [of "i - 1"] by (cases i) (simp_all add: it)
qed

lemma payloads_take_Suc:
  "i < length items \<Longrightarrow> items ! i = (name, flags, payload)
   \<Longrightarrow> payloads (take (Suc i) items) = payloads (take i items) @ payload"
  by (simp add: take_Suc_conv_app_nth payloads_def)

lemma record_name_serialize:
  assumes "4 \<le> rs" "\<forall>it\<in>set items. valid_item rs it"
      and "i < length items" "items ! i = (name, flags, payload)"
  shows "record_name (serialize rs items) rs i = name_field rs name"
proof -
  from drop_serialize [OF assms] obtain rest where
    r: "drop (4 + i * rs) (serialize rs items)
           = name_field rs name
             @ pack_u32 (flags * 2 ^ 30
                 + (4 + int (length items) * int rs + int (length (payloads (take i items)))))
             @ rest" by blast
  from assms(2,3,4) have "valid_item rs (name, flags, payload)"
    by (metis nth_mem)
  then have "length (name_field rs name) = rs - 4" by (rule valid_item_fits)
  then show ?thesis by (simp add: record_name_def read_at_def r)
qed

lemma packed_bounds:
  fixes flags off :: int
  assumes "0 \<le> flags" "flags \<le> 3" "0 \<le> off" "off < 2 ^ 30"
  shows "0 \<le> flags * 2 ^ 30 + off" "flags * 2 ^ 30 + off < 2 ^ 32"
    "(flags * 2 ^ 30 + off) div 2 ^ 30 = flags" "(flags * 2 ^ 30 + off) mod 2 ^ 30 = off"
proof -
  show "0 \<le> flags * 2 ^ 30 + off" using assms by simp
  have "flags * 2 ^ 30 \<le> 3 * 2 ^ 30" using assms(2) by simp
  with assms(4) show "flags * 2 ^ 30 + off < 2 ^ 32" by simp
  show "(flags * 2 ^ 30 + off) div 2 ^ 30 = flags"
    using assms(3,4) by (simp add: div_pos_pos_trivial)
  show "(flags * 2 ^ 30 + off) mod 2 ^ 30 = off"
    using assms(3,4) by (simp add: mod_pos_pos_trivial)
qed

lemma record_field_serialize:
  assumes "4 \<le> rs" "\<forall>it\<in>set items. valid_item rs it"
      and "i < length items" "items ! i = (name, flags, payload)"
      and "entry_offset rs items i < 2 ^ 30"
  shows "record_field (serialize rs items) rs i = flags * 2 ^ 30 + entry_offset rs items i"
    and "0 \<le> flags" "flags \<le> 3"
proof -
  define off where "off = entry_offset rs items i"
  from assms(2,3,4) have v: "valid_item rs (name, flags, payload)"
    by (metis nth_mem)
  then show f: "0 \<le> flags" "flags \<le> 3" by (simp_all add: valid_item_def)
  have o0: "0 \<le> off" by (simp add: off_def entry_offset_def)
  from assms(5) have o1: "off < 2 ^ 30" by (simp add: off_def)
  note b = packed_bounds [OF f o0 o1]
  from drop_serialize [OF assms(1-4)] obtain rest where
    r: "drop (4 + i * rs) (serialize rs items)
           = name_field rs name @ pack_u32 (flags * 2 ^ 30 + off) @ rest"
    unfolding off_def entry_offset_def by blast
  from v have l: "length (name_field rs name) = rs - 4" by (rule valid_item_fits)
  have "drop (4 + i * rs + (rs - 4)) (serialize rs items)
        = drop (rs - 4) (drop (4 + i * rs) (serialize rs items))"
    by (simp add: add.commute)
  also have "\<dots> = pack_u32 (flags * 2 ^ 30 + off) @ rest"
    using l by (simp add: r)
  finally have "read_at (serialize rs items) (4 + i * rs + (rs - 4)) 4
                = pack_u32 (flags * 2 ^ 30 + off)"
    by (simp add: read_at_def)
  then have "record_field (serialize rs items) rs i = flags * 2 ^ 30 + off"
    using unpack_pack [OF b(1,2)] by (simp add: record_field_def u32_at_def le_u32_def)
  then show "record_field (serialize rs items) rs i = flags * 2 ^ 30 + entry_offset rs items i"
    by (simp add: off_def)
qed

lemma length_expected_dir [simp]: "length (expected_dir off items) = length items"
  by (induction off items rule: expected_dir.induct) simp_all

lemma expected_dir_nth:
  "i < length items \<Longrightarrow> items ! i = (name, flags, payload)
   \<Longrightarrow> expected_dir off items ! i
       = (if flags = 1 \<or> ends_with_iaf name
          then Entry name ''image'' (off + int (length (payloads (take i items))))
                 (int (length payload))
          else CgfEntry name ''image'' (off + int (length (payloads (take i items))))
                 (int (length payload)) flags)"
proof (induction off items arbitrary: i rule: expected_dir.induct)
  case (1 off)
  then show ?case by simp
next
  case (2 off n f p rest)
  show ?case
  proof (cases i)
    case 0
    with "2.prems" show ?thesis by simp
  next
    case (Suc k)
    with "2.prems" have "k < length rest" "rest ! k = (name, flags, payload)" by simp_all
    from "2.IH" [OF this] show ?thesis by (simp add: Suc add.assoc)
  qed
qed

section \<open>Decoding a serialized archive\<close>

lemma u32_at_serialize_0:
  assumes "length items < 100000"
  shows "u32_at (serialize rs items) 0 = int (length items)"
proof -
  have "read_at (serialize rs items) 0 4 = pack_u32 (int (length items))"
    by (simp add: read_at_def serialize_def)
  moreover have "unpack_u32 (pack_u32 (int (length items))) = Inr (int (length items))"
    using assms by (intro unpack_pack) simp_all
  ultimately show ?thesis by (simp add: u32_at_def le_u32_def)
qed

lemma record_str_serialize:
  assumes "4 \<le> rs" "\<forall>it\<in>set items. valid_item rs it"
      and "i < length items" "items ! i = (name, flags, payload)"
  shows "utf8_decode (record_name (serialize rs items) rs i)
           = Some (name @ replicate (rs - 4 - length (utf8_encode name)) 0)"
    and "rstrip 0 (name @ replicate (rs - 4 - length (utf8_encode name)) 0) = name"
    and "is_valid_entry_name name"
    and "record_str (serialize rs items) rs i = Some name"
proof -
  from assms(2,3,4) have v: "valid_item rs (name, flags, payload)"
    by (metis nth_mem)
  then show n: "is_valid_entry_name name" by (simp add: valid_item_def)
  from v have c: "list_all valid_code_point name" and l: "last name \<noteq> 0"
    by (simp_all add: valid_item_def)
  from n have ne: "name \<noteq> []" by (simp add: is_valid_entry_name_def)
  show d: "utf8_decode (record_name (serialize rs items) rs i)
           = Some (name @ replicate (rs - 4 - length (utf8_encode name)) 0)"
    using c by (simp add: record_name_serialize [OF assms] decode_name_field)
  show r: "rstrip 0 (name @ replicate (rs - 4 - length (utf8_encode name)) 0) = name"
    using ne l by (rule rstrip_nulls)
  show "record_str (serialize rs items) rs i = Some name"
    by (simp only: record_str_def d option.map r)
qed

lemma decoded_entry_serialize:
  assumes "4 \<le> rs" "\<forall>it\<in>set items. valid_item rs it"
      and "i < length items"
      and offs: "list_all (\<lambda>i. entry_offset rs items i < 2 ^ 30) [0..<length items]"
      and full: "mask_offset (int (length (serialize rs items))) = int (length (serialize rs items))"
  shows "decoded_entry (serialize rs items) rs (length items) i
         = expected_dir (4 + int (length items) * int rs) items ! i"
proof -
  define ar where "ar = serialize rs items"
  define base where "base = 4 + int (length items) * int rs"
  obtain name flags payload where it: "items ! i = (name, flags, payload)"
    by (cases "items ! i")
  define off where "off = entry_offset rs items i"
  have off': "off = base + int (length (payloads (take i items)))"
    by (simp add: off_def entry_offset_def base_def)
  from offs have bound: "entry_offset rs items k < 2 ^ 30" if "k < length items" for k
    using that by (simp add: list_all_iff)
  have f: "record_field ar rs i = flags * 2 ^ 30 + off" "0 \<le> flags" "flags \<le> 3"
    using record_field_serialize [OF assms(1,2,3) it bound [OF assms(3)]]
    by (simp_all add: ar_def off_def)
  have o0: "0 \<le> off" by (simp add: off' base_def)
  have o1: "off < 2 ^ 30" using bound [OF assms(3)] by (simp add: off_def)
  note b = packed_bounds [OF f(2,3) o0 o1]
  have cur: "mask_offset (record_field ar rs i) = off"
    unfolding f(1) using mask_offset_u32 [OF b(1,2)] b(4) by simp
  have fl: "drop_bit 30 (record_field ar rs i) = flags"
    unfolding f(1) using b(3) by (simp add: drop_bit_eq_div)
  note s = record_str_serialize [OF assms(1,2,3) it]
  have nm: "the (record_str ar rs i) = name"
    by (simp add: s(4) ar_def)
  have nxt: "mask_offset (next_field ar rs (length items) i) = off + int (length payload)"
  proof (cases "i + 1 = length items")
    case True
    then have "take (Suc i) items = items" by simp
    with payloads_take_Suc [OF assms(3) it]
    have "payloads items = payloads (take i items) @ payload" by simp
    then have "int (length ar) = off + int (length payload)"
      using length_serialize [OF assms(1,2)]
      by (simp add: ar_def off' base_def mult.commute)
    with full True show ?thesis by (simp add: next_field_def ar_def)
  next
    case False
    with assms(3) have i1: "Suc i < length items" by simp
    obtain n1 f1 p1 where it1: "items ! Suc i = (n1, f1, p1)"
      by (cases "items ! Suc i")
    define off1 where "off1 = entry_offset rs items (Suc i)"
    have g: "record_field ar rs (Suc i) = f1 * 2 ^ 30 + off1" "0 \<le> f1" "f1 \<le> 3"
      using record_field_serialize [OF assms(1,2) i1 it1 bound [OF i1]]
      by (simp_all add: ar_def off1_def)
    have p0: "0 \<le> off1" by (simp add: off1_def entry_offset_def)
    have p1: "off1 < 2 ^ 30" using bound [OF i1] by (simp add: off1_def)
    note b1 = packed_bounds [OF g(2,3) p0 p1]
    have "mask_offset (record_field ar rs (Suc i)) = off1"
      unfolding g(1) using mask_offset_u32 [OF b1(1,2)] b1(4) by simp
    moreover have "off1 = off + int (length payload)"
      using payloads_take_Suc [OF assms(3) it] by (simp add: off1_def off_def entry_offset_def)
    ultimately show ?thesis using False by (simp add: next_field_def)
  qed
  have "decoded_entry ar rs (length items) i
        = make_entry name flags off (int (length payload))"
    by (simp add: decoded_entry_def nm fl cur nxt)
  also have "\<dots> = expected_dir base items ! i"
    using expected_dir_nth [OF assms(3) it, of base]
    by (simp add: make_entry_def endswith_lower_iaf off')
  finally show ?thesis by (simp add: ar_def base_def)
qed

lemma zeros:
  "replicate 11 (0::byte) = [0, 0, 0, 0, 0, 0, 0, 0, 0, 0, 0]"
  "replicate 12 (0::byte) = [0, 0, 0, 0, 0, 0, 0, 0, 0, 0, 0, 0]"
  "replicate 15 (0::byte) = [0, 0, 0, 0, 0, 0, 0, 0, 0, 0, 0, 0, 0, 0, 0]"
  "replicate 23 (0::byte)
   = [0, 0, 0, 0, 0, 0, 0, 0, 0, 0, 0, 0, 0, 0, 0, 0, 0, 0, 0, 0, 0, 0, 0]"
  by (simp_all add: eval_nat_numeral)

lemma serialize_tiny_items: "serialize 0x14 tiny_items = example_archive_0x18"
  by (simp add: tiny_items_def serialize_def pack_u32_def name_field_def utf8_encode_def
      utf8_encode_cp_def lit_def payloads_def example_archive_0x18_def zeros)

lemma serialize_tie_items: "serialize 0x20 tie_items = tie_items_archive"
  by (simp add: tie_items_def serialize_def pack_u32_def name_field_def utf8_encode_def
      utf8_encode_cp_def lit_def payloads_def tie_items_archive_def zeros)

lemma serialize_big_items: "serialize 0x14 big_items = big_archive"
proof -
  have "(2::nat) ^ 30 - 0x18 = 12 + (2 ^ 30 - 36)" by simp
  then have "replicate (2 ^ 30 - 0x18) (0::byte) = replicate 12 0 @ replicate (2 ^ 30 - 36) 0"
    by (simp only: replicate_add)
  then show ?thesis
    by (simp add: big_items_def serialize_def pack_u32_def name_field_def utf8_encode_def
      utf8_encode_cp_def lit_def payloads_def big_archive_def zeros)
qed

lemma valid_example_items:
  "list_all (valid_item 0x14) tiny_items" "list_all (valid_item 0x20) tie_items"
  "list_all (valid_item 0x14) big_items"
  "list_all (valid_item 0x14) two_items" "list_all (valid_item 0x20) two_items"
  by (simp_all add: tiny_items_def tie_items_def big_items_def two_items_def valid_item_def
       is_valid_entry_name_def forbidden_chars_def lit_def valid_code_point_def
       utf8_encode_def utf8_encode_cp_def)


section \<open>Round trip\<close>

text \<open>
  C1, as stated, fails. Three serialized archives with valid names, two-bit flags and
  contiguous payloads are not recovered. The archive of \<open>tiny_items\<close> (one record of
  size \<open>0x14\<close> and 10 payload bytes) has 34 bytes, fewer than the \<open>0x24\<close> that the two
  probe reads need, and \<open>try_open\<close> raises \<open>struct.error\<close>. The archive of \<open>tie_items\<close>
  has record size \<open>0x20\<close>, but the bytes of its first name at file offset \<open>0x14\<close> satisfy
  the \<open>0x14\<close> equation, which is tested first, so the index is decoded with record size
  \<open>0x14\<close>: the entry returned has the first 16 characters of the name, offset \<open>0x18\<close>
  and size 15 instead of offset \<open>0x24\<close> and size 3. The archive of \<open>big_items\<close> has
  \<open>2 ^ 30\<close> bytes; the length of the file is masked like a packed offset, and the entry
  returned has the size \<open>0 - 0x18\<close> instead of \<open>2 ^ 30 - 0x18\<close>.
\<close>

theorem round_trip_fails:
  "list_all (valid_item 0x14) tiny_items
   \<and> try_open ''a.cgf'' (serialize 0x14 tiny_items) = Inl StructError
   \<and> list_all (valid_item 0x20) tie_items
   \<and> expected_dir 0x24 tie_items
       = [CgfEntry (lit ''AAAAAAAAAAAAAAAA'' @ [0x18]) ''image'' 0x24 3 0]
   \<and> try_open ''b.cgf'' (serialize 0x20 tie_items)
       = Inr (Some \<lparr>filename = ''b.cgf'',
                    entries = [CgfEntry (lit ''AAAAAAAAAAAAAAAA'') ''image'' 0x18 15 0]\<rparr>)
   \<and> list_all (valid_item 0x14) big_items
   \<and> expected_dir 0x18 big_items = [CgfEntry (lit ''A'') ''image'' 0x18 (2 ^ 30 - 0x18) 0]
   \<and> try_open ''c.cgf'' (serialize 0x14 big_items)
       = Inr (Some \<lparr>filename = ''c.cgf'',
                    entries = [CgfEntry (lit ''A'') ''image'' 0x18 (- 0x18) 0]\<rparr>)"
proof -
  have a: "try_open ''a.cgf'' (serialize 0x14 tiny_items) = Inl StructError"
    unfolding serialize_tiny_items by code_simp
  have b: "try_open ''b.cgf'' (serialize 0x20 tie_items)
       = Inr (Some \<lparr>filename = ''b.cgf'',
                    entries = [CgfEntry (lit ''AAAAAAAAAAAAAAAA'') ''image'' 0x18 15 0]\<rparr>)"
    unfolding serialize_tie_items by code_simp
  have b': "expected_dir 0x24 tie_items
       = [CgfEntry (lit ''AAAAAAAAAAAAAAAA'' @ [0x18]) ''image'' 0x24 3 0]"
    by (simp add: tie_items_def ends_with_iaf_def lit_def)
  have c: "try_open ''c.cgf'' (serialize 0x14 big_items)
       = Inr (Some \<lparr>filename = ''c.cgf'',
                    entries = [CgfEntry (lit ''A'') ''image'' 0x18 (- 0x18) 0]\<rparr>)"
    unfolding serialize_big_items
    by (simp add: try_open_def big_archive_def read_at_def is_sane_count_def mask_offset_def
        open_index_def slice_def in_range_def cons_opt_def rstrip_def is_valid_entry_name_def
        forbidden_chars_def lit_def endswith_def lower_def lower_cp_def upt_rec loop_body_def
        make_entry_def)
  have c': "expected_dir 0x18 big_items = [CgfEntry (lit ''A'') ''image'' 0x18 (2 ^ 30 - 0x18) 0]"
    by (simp add: big_items_def ends_with_iaf_def lit_def)
  from valid_example_items(1,2,3) a b b' c c' show ?thesis by (intro conjI)
qed

text \<open>
  C1, amended. For every archive serialized with a chosen record size in
  \<open>{0x14, 0x20}\<close>, a count with \<open>0 < count < 100000\<close>, valid names (accepted by
  \<open>is_valid_entry_name\<close>, not ending with a null character, of encodable code points, and
  fitting the name field), two-bit flags, every entry offset below \<open>2 ^ 30\<close> and the
  payloads laid out contiguously after the index, and such that moreover the file has at
  least \<open>0x24\<close> bytes, the length of the file has bits 30 and 31 clear (it is unchanged by
  masking with \<open>~0xC0000000\<close>), and, for record size \<open>0x20\<close>, the bytes of the first name
  at file offset \<open>0x14\<close> do not satisfy the \<open>0x14\<close> equation: \<open>try_open\<close> succeeds and the
  returned directory has exactly the original count of entries with the original names,
  offsets, payload sizes and flag-derived kinds, in index order.
\<close>

theorem round_trip:
  assumes rs: "rs = 0x14 \<or> rs = 0x20"
      and n: "0 < length items" "length items < 100000"
      and v: "\<forall>it\<in>set items. valid_item rs it"
      and lo: "0x24 \<le> length (serialize rs items)"
      and offs: "list_all (\<lambda>i. entry_offset rs items i < 2 ^ 30) [0..<length items]"
      and full: "mask_offset (int (length (serialize rs items))) = int (length (serialize rs items))"
      and tie: "rs = 0x20 \<longrightarrow>
                 4 + int (length items) * 0x14 \<noteq> u32_at (serialize rs items) 0x14 mod 2 ^ 30"
  shows "try_open fname (serialize rs items)
         = Inr (Some \<lparr>filename = fname,
                      entries = expected_dir (4 + int (length items) * int rs) items\<rparr>)"
proof -
  define ar where "ar = serialize rs items"
  define count where "count = length items"
  from rs have es4: "4 \<le> rs" by auto
  have c: "u32_at ar 0 = int count"
    using u32_at_serialize_0 [OF n(2)] by (simp add: ar_def count_def)
  then have sane: "is_sane_count (u32_at ar 0)"
    using n by (simp add: is_sane_count_def count_def)
  have nc: "nat (u32_at ar 0) = count" using c by simp
  have f0: "record_field ar rs 0 mod 2 ^ 30 = 4 + int count * int rs"
  proof -
    obtain n0 f0 p0 where it: "items ! 0 = (n0, f0, p0)" by (cases "items ! 0")
    from offs n(1) have o1: "entry_offset rs items 0 < 2 ^ 30"
      by (simp add: list_all_iff)
    note f = record_field_serialize [OF es4 v n(1) it o1]
    have "0 \<le> entry_offset rs items 0"
      by (simp add: entry_offset_def)
    from packed_bounds(4) [OF f(2,3) this o1] f(1) show ?thesis
      by (simp add: ar_def count_def entry_offset_def)
  qed
  have probe: "u32_at ar rs = record_field ar rs 0"
    using record_field_0 [OF es4, of ar] by simp
  have lay: "selected_layout ar = Some rs"
  proof (cases "rs = 0x14")
    case True
    with f0 probe c show ?thesis by (simp add: selected_layout_0x14)
  next
    case False
    with rs have r: "rs = 0x20" by simp
    with tie c have "4 + u32_at ar 0 * 0x14 \<noteq> u32_at ar 0x14 mod 2 ^ 30"
      by (simp add: ar_def count_def)
    with f0 probe c r show ?thesis by (simp add: selected_layout_0x20)
  qed
  have names: "\<forall>i. i < count \<longrightarrow> (\<exists>s. utf8_decode (record_name ar rs i) = Some s
                      \<and> is_valid_entry_name (rstrip 0 s))"
  proof (intro allI impI)
    fix i assume i: "i < count"
    obtain name flags payload where it: "items ! i = (name, flags, payload)"
      by (cases "items ! i")
    from i have i': "i < length items" by (simp add: count_def)
    note s = record_str_serialize [OF es4 v i' it]
    from s(1,2,3) show "\<exists>s. utf8_decode (record_name ar rs i) = Some s
                      \<and> is_valid_entry_name (rstrip 0 s)"
      by (simp add: ar_def)
  qed
  have len: "4 + min (count + 1) count * rs \<le> length ar"
    using length_serialize [OF es4 v] by (simp add: ar_def count_def mult.commute)
  from read_dir_reach [OF es4 le_refl names len, of 0 "u32_at ar rs" "[]"]
  obtain no' dir' where
    "read_dir (length ar) (read_at ar 4 (rs * count)) rs count [0..<count] (u32_at ar rs) []
     = read_dir (length ar) (read_at ar 4 (rs * count)) rs count [count..<count] no' dir'"
    by auto
  then have "open_index fname ar count rs (u32_at ar rs)
             = Inr (Some \<lparr>filename = fname, entries = dir'\<rparr>)"
    by (simp add: open_index_def)
  with try_open_layout [OF _ sane, of fname] lo lay nc
  have ok: "try_open fname ar = Inr (Some \<lparr>filename = fname, entries = dir'\<rparr>)"
    by (simp add: ar_def)
  from try_open_SomeD [OF ok] lay nc
  have "dir' = map (decoded_entry ar rs count) [0..<count]"
    by auto
  also have "\<dots> = expected_dir (4 + int (length items) * int rs) items"
  proof (rule nth_equalityI)
    show "length (map (decoded_entry ar rs count) [0..<count])
          = length (expected_dir (4 + int (length items) * int rs) items)"
      by (simp add: count_def)
  next
    fix i assume "i < length (map (decoded_entry ar rs count) [0..<count])"
    then have i: "i < length items" by (simp add: count_def)
    from decoded_entry_serialize [OF es4 v i offs full] i
    show "map (decoded_entry ar rs count) [0..<count] ! i
          = expected_dir (4 + int (length items) * int rs) items ! i"
      by (simp add: ar_def count_def)
  qed
  finally show ?thesis using ok by (simp add: ar_def)
qed

theorem round_trip_witness:
  "try_open ''t.cgf'' (serialize 0x14 two_items)
     = Inr (Some \<lparr>filename = ''t.cgf'', entries = two_entry_dir\<rparr>)
   \<and> try_open ''w.cgf'' (serialize 0x20 two_items)
     = Inr (Some \<lparr>filename = ''w.cgf'',
                  entries = [CgfEntry (lit ''a.png'') ''image'' 0x44 3 0,
                             Entry (lit ''b.IAF'') ''image'' 0x47 5]\<rparr>)"
proof -
  have n: "0 < length two_items" "length two_items < 100000"
    by (simp_all add: two_items_def)
  have v: "\<forall>it\<in>set two_items. valid_item 0x14 it" "\<forall>it\<in>set two_items. valid_item 0x20 it"
    using valid_example_items(4,5) by (simp_all add: list_all_iff)
  have l: "length (serialize 0x14 two_items) = 52" "length (serialize 0x20 two_items) = 76"
    using length_serialize [OF _ v(1)] length_serialize [OF _ v(2)]
    by (simp_all add: two_items_def)
  have lo: "0x24 \<le> length (serialize 0x14 two_items)" "0x24 \<le> length (serialize 0x20 two_items)"
    by (simp_all add: l)
  have offs: "list_all (\<lambda>i. entry_offset 0x14 two_items i < 2 ^ 30) [0..<length two_items]"
      "list_all (\<lambda>i. entry_offset 0x20 two_items i < 2 ^ 30) [0..<length two_items]"
    by (simp_all add: two_items_def entry_offset_def upt_rec)
  have full: "mask_offset (int (length (serialize 0x14 two_items)))
              = int (length (serialize 0x14 two_items))"
      "mask_offset (int (length (serialize 0x20 two_items)))
              = int (length (serialize 0x20 two_items))"
    by (simp_all add: l mask_offset_def)
  have tie14: "(0x14::nat) = 0x20 \<longrightarrow>
      4 + int (length two_items) * 0x14 \<noteq> u32_at (serialize 0x14 two_items) 0x14 mod 2 ^ 30"
    by simp
  have "u32_at (serialize 0x20 two_items) 0x14 = 0"
    by (simp add: two_items_def serialize_def pack_u32_def name_field_def utf8_encode_def
        utf8_encode_cp_def lit_def payloads_def zeros u32_at_def read_at_def le_u32_def)
  then have tie20: "(0x20::nat) = 0x20 \<longrightarrow>
      4 + int (length two_items) * 0x14 \<noteq> u32_at (serialize 0x20 two_items) 0x14 mod 2 ^ 30"
    by (simp add: two_items_def)
  have e14: "expected_dir (4 + int (length two_items) * int 0x14) two_items = two_entry_dir"
    by (simp add: two_items_def two_entry_dir_def ends_with_iaf_def lit_def)
  have e20: "expected_dir (4 + int (length two_items) * int 0x20) two_items
             = [CgfEntry (lit ''a.png'') ''image'' 0x44 3 0,
                Entry (lit ''b.IAF'') ''image'' 0x47 5]"
    by (simp add: two_items_def ends_with_iaf_def lit_def)
  from round_trip [OF _ n v(1) lo(1) offs(1) full(1) tie14, of "''t.cgf''"]
  have a: "try_open ''t.cgf'' (serialize 0x14 two_items)
     = Inr (Some \<lparr>filename = ''t.cgf'', entries = two_entry_dir\<rparr>)"
    unfolding e14 by simp
  from round_trip [OF _ n v(2) lo(2) offs(2) full(2) tie20, of "''w.cgf''"]
  have b: "try_open ''w.cgf'' (serialize 0x20 two_items)
     = Inr (Some \<lparr>filename = ''w.cgf'',
                  entries = [CgfEntry (lit ''a.png'') ''image'' 0x44 3 0,
                             Entry (lit ''b.IAF'') ''image'' 0x47 5]\<rparr>)"
    unfolding e20 by simp
  from a b show ?thesis by (rule conjI)
qed

section \<open>Offsets and sizes\<close>

text \<open>
  C2. For every archive that \<open>try_open\<close> accepts, with the selected record size \<open>es\<close>
  and \<open>count\<close> records: record \<open>i\<close> lies within the file; the flags of entry \<open>i\<close> are
  the top two bits of the trailing field of record \<open>i\<close> (a value from 0 to 3) and its
  offset is the low 30 bits of that field, which is the field masked with
  \<open>~0xC0000000\<close>; for the first record the field is the probe value chosen in detection;
  the next offset is the trailing field of record \<open>i + 1\<close>, or the length of the file for
  the last record; and the size is the masked next offset minus the masked field.
\<close>

theorem offsets_and_sizes:
  assumes "try_open fname file = Inr (Some arc)"
  shows "\<exists>es. selected_layout file = Some es
      \<and> length (entries arc) = nat (u32_at file 0)
      \<and> record_field file es 0 = u32_at file es
      \<and> (\<forall>i < nat (u32_at file 0).
            4 + (i + 1) * es \<le> length file
          \<and> record_field file es i div 2 ^ 30 \<in> {0..3}
          \<and> offset_of (entries arc ! i) = record_field file es i mod 2 ^ 30
          \<and> offset_of (entries arc ! i) = mask_offset (record_field file es i)
          \<and> size_of (entries arc ! i)
              = mask_offset (if i + 1 = nat (u32_at file 0) then int (length file)
                             else record_field file es (i + 1))
                - mask_offset (record_field file es i)
          \<and> (\<exists>name. entries arc ! i
                = make_entry name (record_field file es i div 2 ^ 30)
                    (offset_of (entries arc ! i)) (size_of (entries arc ! i))))"
proof -
  from try_open_SomeD [OF assms] obtain es where
    l: "0x24 \<le> length file" and es: "selected_layout file = Some es"
    and arc: "arc = \<lparr>filename = fname,
                     entries = map (decoded_entry file es (nat (u32_at file 0)))
                                 [0..<nat (u32_at file 0)]\<rparr>"
    and idx: "4 + nat (u32_at file 0) * es \<le> length file"
    by blast
  from selected_layout_SomeD(1) [OF es] have es4: "4 \<le> es" by auto
  have "4 + (i + 1) * es \<le> length file
          \<and> record_field file es i div 2 ^ 30 \<in> {0..3}
          \<and> offset_of (entries arc ! i) = record_field file es i mod 2 ^ 30
          \<and> offset_of (entries arc ! i) = mask_offset (record_field file es i)
          \<and> size_of (entries arc ! i)
              = mask_offset (if i + 1 = nat (u32_at file 0) then int (length file)
                             else record_field file es (i + 1))
                - mask_offset (record_field file es i)
          \<and> (\<exists>name. entries arc ! i
                = make_entry name (record_field file es i div 2 ^ 30)
                    (offset_of (entries arc ! i)) (size_of (entries arc ! i)))"
    if i: "i < nat (u32_at file 0)" for i
  proof -
    note r = record_in_file [OF idx i]
    note b = record_field_bounds [OF r es4]
    have e: "entries arc ! i = decoded_entry file es (nat (u32_at file 0)) i"
      using arc i by simp
    have f: "record_field file es i div 2 ^ 30 \<in> {0..3}"
      using b(1,2) by (auto simp add: pos_imp_zdiv_nonneg_iff)
    have d: "drop_bit 30 (record_field file es i) = record_field file es i div 2 ^ 30"
      by (simp add: drop_bit_eq_div)
    show ?thesis
      using r f b(3) unfolding e decoded_entry_def next_field_def d
      by (auto simp del: One_nat_def)
  qed
  moreover have "length (entries arc) = nat (u32_at file 0)"
    using arc by simp
  moreover note es record_field_0 [OF es4, of "file"]
  ultimately show ?thesis by blast
qed

theorem offsets_and_sizes_witness:
  "try_open ''t.cgf'' two_entry_archive
     = Inr (Some \<lparr>filename = ''t.cgf'', entries = two_entry_dir\<rparr>)
   \<and> selected_layout two_entry_archive = Some 0x14
   \<and> nat (u32_at two_entry_archive 0) = 2
   \<and> offset_of (two_entry_dir ! 1) = record_field two_entry_archive 0x14 1 mod 2 ^ 30
   \<and> size_of (two_entry_dir ! 1)
       = mask_offset (int (length two_entry_archive))
         - mask_offset (record_field two_entry_archive 0x14 1)"
proof -
  have h: "try_open ''t.cgf'' two_entry_archive
     = Inr (Some \<lparr>filename = ''t.cgf'', entries = two_entry_dir\<rparr>)"
    by code_simp
  have l: "selected_layout two_entry_archive = Some 0x14"
    by code_simp
  have c: "nat (u32_at two_entry_archive 0) = 2"
    by code_simp
  from offsets_and_sizes [OF h] l c show ?thesis
    using h by (auto simp del: One_nat_def)
qed

section \<open>Classification\<close>

text \<open>
  C5. For every record \<open>i\<close> of an accepted archive, with \<open>name\<close> the decoded name and
  \<open>fl\<close> the top two bits of the record's trailing field: if \<open>fl = 1\<close> or the name ends
  with \<open>.iaf\<close> in any case, the entry is a plain \<open>Entry\<close> (kind Generic, no flags);
  otherwise it is a \<open>CgfEntry\<close> (kind Image) that carries \<open>fl\<close>. In particular a name that
  ends with \<open>.iaf\<close> gives a plain \<open>Entry\<close> when the flags are 2 or 3.
\<close>

theorem classification:
  assumes "try_open fname file = Inr (Some arc)" and "i < length (entries arc)"
  shows "\<exists>es name fl.
           selected_layout file = Some es
         \<and> record_str file es i = Some name
         \<and> fl = record_field file es i div 2 ^ 30
         \<and> (if fl = 1 \<or> ends_with_iaf name
             then entries arc ! i
                  = Entry name ''image'' (offset_of (entries arc ! i)) (size_of (entries arc ! i))
             else entries arc ! i
                  = CgfEntry name ''image'' (offset_of (entries arc ! i))
                      (size_of (entries arc ! i)) fl)
         \<and> (ends_with_iaf name \<and> fl \<noteq> 0 \<and> fl \<noteq> 1 \<longrightarrow>
              entries arc ! i
              = Entry name ''image'' (offset_of (entries arc ! i)) (size_of (entries arc ! i)))"
proof -
  from try_open_SomeD [OF assms(1)] obtain es where
    es: "selected_layout file = Some es"
    and arc: "arc = \<lparr>filename = fname,
                     entries = map (decoded_entry file es (nat (u32_at file 0)))
                                 [0..<nat (u32_at file 0)]\<rparr>"
    and names: "\<forall>i. i < nat (u32_at file 0) \<longrightarrow>
                 (\<exists>s. utf8_decode (record_name file es i) = Some s
                    \<and> is_valid_entry_name (rstrip 0 s))"
    by blast
  from arc assms(2) have i: "i < nat (u32_at file 0)" by simp
  with names obtain s where s: "utf8_decode (record_name file es i) = Some s" by blast
  then have n: "record_str file es i = Some (rstrip 0 s)"
    by (simp add: record_str_def)
  have e: "entries arc ! i = decoded_entry file es (nat (u32_at file 0)) i"
    using arc i by simp
  have d: "drop_bit 30 (record_field file es i) = record_field file es i div 2 ^ 30"
    by (simp add: drop_bit_eq_div)
  have "(if record_field file es i div 2 ^ 30 = 1 \<or> ends_with_iaf (rstrip 0 s)
             then entries arc ! i
                  = Entry (rstrip 0 s) ''image'' (offset_of (entries arc ! i)) (size_of (entries arc ! i))
             else entries arc ! i
                  = CgfEntry (rstrip 0 s) ''image'' (offset_of (entries arc ! i))
                      (size_of (entries arc ! i)) (record_field file es i div 2 ^ 30))"
    unfolding e decoded_entry_def n d by (simp add: make_entry_def endswith_lower_iaf)
  with es n show ?thesis by auto
qed

theorem classification_witness:
  "try_open ''t.cgf'' two_entry_archive
     = Inr (Some \<lparr>filename = ''t.cgf'', entries = two_entry_dir\<rparr>)
   \<and> (1::nat) < length two_entry_dir
   \<and> record_str two_entry_archive 0x14 1 = Some (lit ''b.IAF'')
   \<and> ends_with_iaf (lit ''b.IAF'')
   \<and> record_field two_entry_archive 0x14 1 div 2 ^ 30 = 2
   \<and> two_entry_dir ! 1
       = Entry (lit ''b.IAF'') ''image'' (offset_of (two_entry_dir ! 1)) (size_of (two_entry_dir ! 1))"
proof -
  have h: "try_open ''t.cgf'' two_entry_archive
     = Inr (Some \<lparr>filename = ''t.cgf'', entries = two_entry_dir\<rparr>)"
    by code_simp
  have i: "1 < length (entries \<lparr>filename = ''t.cgf'', entries = two_entry_dir\<rparr>)"
    by (simp add: two_entry_dir_def)
  have l: "selected_layout two_entry_archive = Some 0x14"
    by code_simp
  have n: "record_str two_entry_archive 0x14 1 = Some (lit ''b.IAF'')"
    by code_simp
  have e: "ends_with_iaf (lit ''b.IAF'')"
    by code_simp
  have f: "record_field two_entry_archive 0x14 1 div 2 ^ 30 = 2"
    by code_simp
  from classification [OF h i] l n e f show ?thesis
    using h i by auto
qed

section \<open>Size accounting\<close>

text \<open>
  C7, as stated, fails for an archive of \<open>2 ^ 30\<close> bytes or more. The length of the file
  is masked with \<open>~0xC0000000\<close> like every other next offset, so for the accepted archive
  \<open>big_archive\<close> of \<open>2 ^ 30\<close> bytes the only entry has the size \<open>0 - 0x18\<close>, and the sum
  of the sizes, the index block and 4 is 0, not the length of the file.
\<close>

theorem big_archive_sizes:
  "try_open ''big.cgf'' big_archive
     = Inr (Some \<lparr>filename = ''big.cgf'',
                  entries = [CgfEntry (lit ''A'') ''image'' 0x18 (- 0x18) 0]\<rparr>)
   \<and> sum_list (map size_of [CgfEntry (lit ''A'') ''image'' 0x18 (- 0x18) 0]) + 1 * 0x14 + 4
       \<noteq> int (length big_archive)"
  by (simp add: try_open_def big_archive_def read_at_def is_sane_count_def mask_offset_def
      open_index_def slice_def in_range_def cons_opt_def rstrip_def is_valid_entry_name_def
      forbidden_chars_def lit_def endswith_def lower_def lower_cp_def upt_rec loop_body_def
      make_entry_def)

text \<open>
  C7, amended. For every archive that \<open>try_open\<close> accepts, the sum of the sizes of all
  entries, plus the index block size \<open>count * record_size\<close>, plus 4, equals the length of
  the file with bits 30 and 31 cleared; it equals the length of the file whenever that
  length is below \<open>2 ^ 30\<close>.
\<close>

theorem size_accounting:
  assumes "try_open fname file = Inr (Some arc)"
  shows "\<exists>es. selected_layout file = Some es
      \<and> sum_list (map size_of (entries arc)) + int (nat (u32_at file 0) * es) + 4
          = mask_offset (int (length file))
      \<and> (length file < 2 ^ 30 \<longrightarrow>
           sum_list (map size_of (entries arc)) + int (nat (u32_at file 0) * es) + 4
           = int (length file))"
proof -
  from try_open_SomeD [OF assms] obtain es where
    l: "0x24 \<le> length file" and sane: "is_sane_count (u32_at file 0)"
    and es: "selected_layout file = Some es"
    and arc: "arc = \<lparr>filename = fname,
                     entries = map (decoded_entry file es (nat (u32_at file 0)))
                                 [0..<nat (u32_at file 0)]\<rparr>"
    by blast
  from sane have c: "0 < nat (u32_at file 0)" "int (nat (u32_at file 0)) = u32_at file 0"
    by (simp_all add: is_sane_count_def)
  have "sum_list (map size_of (entries arc))
        = mask_offset (int (length file)) - (4 + u32_at file 0 * int es)"
    unfolding arc using sum_sizes [OF c(1), of "file" es] first_offset [OF es l] by simp
  then have s: "sum_list (map size_of (entries arc)) + int (nat (u32_at file 0) * es) + 4
          = mask_offset (int (length file))"
    using c(2) by simp
  moreover have "mask_offset (int (length file)) = int (length file)" if "length file < 2 ^ 30"
  proof (rule mask_offset_small)
    show "0 \<le> int (length file)" by simp
    from that have "int (length file) < int (2 ^ 30)" by (simp only: of_nat_less_iff)
    then show "int (length file) < 2 ^ 30" by simp
  qed
  ultimately show ?thesis using es by auto
qed

theorem size_accounting_witness:
  "try_open ''t.cgf'' two_entry_archive
     = Inr (Some \<lparr>filename = ''t.cgf'', entries = two_entry_dir\<rparr>)
   \<and> length two_entry_archive < 2 ^ 30
   \<and> selected_layout two_entry_archive = Some 0x14
   \<and> sum_list (map size_of two_entry_dir) + int (nat (u32_at two_entry_archive 0) * 0x14) + 4
       = int (length two_entry_archive)"
proof -
  have h: "try_open ''t.cgf'' two_entry_archive
     = Inr (Some \<lparr>filename = ''t.cgf'', entries = two_entry_dir\<rparr>)"
    by code_simp
  have l: "selected_layout two_entry_archive = Some 0x14"
    by code_simp
  have s: "length two_entry_archive < 2 ^ 30"
    by (simp add: two_entry_archive_def)
  from size_accounting [OF h] l s show ?thesis
    using h by auto
qed

section \<open>The ranges of a directory\<close>

text \<open>
  C8, as stated, fails: \<open>try_open\<close> does not compare the offsets of successive records.
  It accepts \<open>unordered_archive\<close>, whose second trailing field is smaller than the first,
  and returns a directory whose offsets decrease and whose first size is negative. It
  also accepts \<open>empty_entry_archive\<close>, whose two trailing fields are equal, and returns
  two entries with the same offset, the first of size 0: the offsets there do not
  increase strictly.
\<close>

theorem unordered_archive_accepted:
  "try_open ''u.cgf'' unordered_archive
     = Inr (Some \<lparr>filename = ''u.cgf'',
                  entries = [CgfEntry (lit ''A'') ''image'' 0x2C (- 0x1C) 0,
                             CgfEntry (lit ''B'') ''image'' 0x10 0x1C 0]\<rparr>)
   \<and> \<not> range_invariant [CgfEntry (lit ''A'') ''image'' 0x2C (- 0x1C) 0,
                           CgfEntry (lit ''B'') ''image'' 0x10 0x1C 0]
         (length unordered_archive)
   \<and> try_open ''e.cgf'' empty_entry_archive
     = Inr (Some \<lparr>filename = ''e.cgf'',
                  entries = [CgfEntry (lit ''A'') ''image'' 0x2C 0 0,
                             CgfEntry (lit ''B'') ''image'' 0x2C 4 0]\<rparr>)
   \<and> \<not> range_invariant [CgfEntry (lit ''A'') ''image'' 0x2C 0 0,
                           CgfEntry (lit ''B'') ''image'' 0x2C 4 0]
         (length empty_entry_archive)"
proof -
  have "try_open ''u.cgf'' unordered_archive
     = Inr (Some \<lparr>filename = ''u.cgf'',
                  entries = [CgfEntry (lit ''A'') ''image'' 0x2C (- 0x1C) 0,
                             CgfEntry (lit ''B'') ''image'' 0x10 0x1C 0]\<rparr>)"
    by code_simp
  moreover have "try_open ''e.cgf'' empty_entry_archive
     = Inr (Some \<lparr>filename = ''e.cgf'',
                  entries = [CgfEntry (lit ''A'') ''image'' 0x2C 0 0,
                             CgfEntry (lit ''B'') ''image'' 0x2C 4 0]\<rparr>)"
    by code_simp
  ultimately show ?thesis by (simp add: range_invariant_def)
qed

text \<open>
  C8, amended. In every directory returned by \<open>try_open\<close> the ranges are contiguous (each
  entry's offset plus size is the next entry's offset), the first offset is the end of
  the index, \<open>4 + count * record_size\<close>, and the final entry's end is the length of the
  file with bits 30 and 31 cleared, which is at most the length of the file. Whenever
  no size is negative, the entries are ordered by non-decreasing offset and the ranges
  do not overlap (each entry ends at or before the start of every later one); whenever
  every size is positive, the offsets increase strictly. \<open>try_open\<close> does not check the
  sizes.
\<close>

theorem directory_ranges:
  assumes "try_open fname file = Inr (Some arc)"
  shows "contiguous (entries arc)
     \<and> entries arc \<noteq> []
     \<and> (\<exists>es. selected_layout file = Some es
            \<and> offset_of (hd (entries arc)) = 4 + u32_at file 0 * int es)
     \<and> offset_of (last (entries arc)) + size_of (last (entries arc))
         = mask_offset (int (length file))
     \<and> offset_of (last (entries arc)) + size_of (last (entries arc)) \<le> int (length file)
     \<and> ((\<forall>e\<in>set (entries arc). 0 \<le> size_of e) \<longrightarrow>
           sorted (map offset_of (entries arc))
           \<and> sorted_wrt (\<lambda>a b. offset_of a + size_of a \<le> offset_of b) (entries arc))
     \<and> ((\<forall>e\<in>set (entries arc). 0 < size_of e) \<longrightarrow>
           sorted_wrt (<) (map offset_of (entries arc)))"
proof -
  from try_open_SomeD [OF assms] obtain es where
    l: "0x24 \<le> length file" and sane: "is_sane_count (u32_at file 0)"
    and es: "selected_layout file = Some es"
    and arc: "arc = \<lparr>filename = fname,
                     entries = map (decoded_entry file es (nat (u32_at file 0)))
                                 [0..<nat (u32_at file 0)]\<rparr>"
    by blast
  define count where "count = nat (u32_at file 0)"
  from sane have c: "0 < count" by (simp add: is_sane_count_def count_def)
  have ents: "entries arc = map (decoded_entry file es count) [0..<count]"
    using arc by (simp add: count_def)
  have len: "length (entries arc) = count" using ents by simp
  have nth: "entries arc ! i = decoded_entry file es count i" if "i < count" for i
    using that ents by simp
  have cont: "contiguous (entries arc)"
  proof (rule contiguous_nth)
    fix i assume "Suc i < length (entries arc)"
    then have i: "Suc i < count" using len by simp
    then show "offset_of (entries arc ! i) + size_of (entries arc ! i)
               = offset_of (entries arc ! Suc i)"
      by (simp add: nth decoded_entry_def next_field_def)
  qed
  have ne: "entries arc \<noteq> []" using len c by auto
  have "hd (entries arc) = decoded_entry file es count 0"
    using nth [of 0] c ne by (simp add: hd_conv_nth)
  then have first: "offset_of (hd (entries arc)) = 4 + u32_at file 0 * int es"
    using first_offset [OF es l] by (simp add: decoded_entry_offset)
  have "last (entries arc) = decoded_entry file es count (count - 1)"
    using nth [of "count - 1"] c ne len by (simp add: last_conv_nth)
  then have last: "offset_of (last (entries arc)) + size_of (last (entries arc))
         = mask_offset (int (length file))"
    using c by (simp add: decoded_entry_def next_field_def)
  have "mask_offset (int (length file)) \<le> int (length file)"
    by (rule mask_offset_le) simp
  with cont ne first last es contiguous_increasing [OF cont]
    contiguous_nondecreasing [OF cont] contiguous_no_overlap [OF cont]
  show ?thesis
    by auto
qed

theorem directory_ranges_witness:
  "try_open ''t.cgf'' two_entry_archive
     = Inr (Some \<lparr>filename = ''t.cgf'', entries = two_entry_dir\<rparr>)
   \<and> contiguous two_entry_dir
   \<and> offset_of (last two_entry_dir) + size_of (last two_entry_dir)
       \<le> int (length two_entry_archive)
   \<and> sorted (map offset_of two_entry_dir)
   \<and> sorted_wrt (\<lambda>a b. offset_of a + size_of a \<le> offset_of b) two_entry_dir
   \<and> sorted_wrt (<) (map offset_of two_entry_dir)"
proof -
  have h: "try_open ''t.cgf'' two_entry_archive
     = Inr (Some \<lparr>filename = ''t.cgf'', entries = two_entry_dir\<rparr>)"
    by code_simp
  have p: "\<forall>e\<in>set two_entry_dir. 0 < size_of e"
    by (simp add: two_entry_dir_def)
  then have q: "\<forall>e\<in>set two_entry_dir. 0 \<le> size_of e"
    by (simp add: two_entry_dir_def)
  from directory_ranges [OF h] p q show ?thesis
    using h by simp
qed

section \<open>Layout detection\<close>

text \<open>
  C3, as stated, fails for a file shorter than \<open>0x24\<close> bytes. \<open>try_open\<close> reads both
  probe values before it tests either equation, so for the 34-byte archive
  \<open>example_archive_0x18\<close>, which has a sane count and whose value at offset \<open>0x14\<close>
  satisfies the \<open>0x14\<close> equation, it raises \<open>struct.error\<close> at the read at offset \<open>0x20\<close>
  and selects no record size.
\<close>

theorem short_file_selects_nothing:
  "is_sane_count (u32_at example_archive_0x18 0)
   \<and> length example_archive_0x18 = 34
   \<and> 4 + u32_at example_archive_0x18 0 * 0x14 = u32_at example_archive_0x18 0x14 mod 2 ^ 30
   \<and> try_open ''a.cgf'' example_archive_0x18 = Inl StructError"
  by code_simp

text \<open>
  C3, amended. For every file with a sane count and at least \<open>0x24\<close> bytes, so that both
  probe values can be read: \<open>try_open\<close> decodes the index with record size \<open>0x14\<close> exactly when
  \<open>4 + count * 0x14\<close> equals the little-endian 32-bit value at offset \<open>0x14\<close> with its top
  two bits masked off; otherwise with record size \<open>0x20\<close> exactly when \<open>4 + count * 0x20\<close>
  equals the value at offset \<open>0x20\<close>, masked likewise; otherwise it returns the
  format-mismatch result. When both equations hold, the \<open>0x14\<close> layout is taken. The
  record size chosen shows in the result: an accepted archive's entries are those decoded
  with that record size.
\<close>

theorem layout_detection:
  assumes "0x24 \<le> length file" and "is_sane_count (u32_at file 0)"
  shows "(4 + u32_at file 0 * 0x14 = u32_at file 0x14 mod 2 ^ 30 \<longrightarrow>
            try_open fname file
            = open_index fname file (nat (u32_at file 0)) 0x14 (u32_at file 0x14))
       \<and> (4 + u32_at file 0 * 0x14 \<noteq> u32_at file 0x14 mod 2 ^ 30
          \<and> 4 + u32_at file 0 * 0x20 = u32_at file 0x20 mod 2 ^ 30 \<longrightarrow>
            try_open fname file
            = open_index fname file (nat (u32_at file 0)) 0x20 (u32_at file 0x20))
       \<and> (4 + u32_at file 0 * 0x14 \<noteq> u32_at file 0x14 mod 2 ^ 30
          \<and> 4 + u32_at file 0 * 0x20 \<noteq> u32_at file 0x20 mod 2 ^ 30 \<longrightarrow>
            try_open fname file = Inr None)
       \<and> (\<forall>arc. try_open fname file = Inr (Some arc) \<longrightarrow>
            entries arc
            = map (decoded_entry file
                     (if 4 + u32_at file 0 * 0x14 = u32_at file 0x14 mod 2 ^ 30
                      then 0x14 else 0x20)
                     (nat (u32_at file 0)))
                [0..<nat (u32_at file 0)])"
proof -
  note lay = try_open_layout [OF assms, of fname]
  have a: "try_open fname file = open_index fname file (nat (u32_at file 0)) 0x14 (u32_at file 0x14)"
    if "4 + u32_at file 0 * 0x14 = u32_at file 0x14 mod 2 ^ 30"
    using that lay selected_layout_0x14 [of "file"] by simp
  have b: "try_open fname file = open_index fname file (nat (u32_at file 0)) 0x20 (u32_at file 0x20)"
    if "4 + u32_at file 0 * 0x14 \<noteq> u32_at file 0x14 mod 2 ^ 30"
       "4 + u32_at file 0 * 0x20 = u32_at file 0x20 mod 2 ^ 30"
    using that lay selected_layout_0x20 [of "file"] by simp
  have c: "try_open fname file = Inr None"
    if "4 + u32_at file 0 * 0x14 \<noteq> u32_at file 0x14 mod 2 ^ 30"
       "4 + u32_at file 0 * 0x20 \<noteq> u32_at file 0x20 mod 2 ^ 30"
    using that lay selected_layout_None [of "file"] by simp
  have d: "entries arc
            = map (decoded_entry file
                     (if 4 + u32_at file 0 * 0x14 = u32_at file 0x14 mod 2 ^ 30
                      then 0x14 else 0x20)
                     (nat (u32_at file 0)))
                [0..<nat (u32_at file 0)]"
    if "try_open fname file = Inr (Some arc)" for arc
  proof -
    from try_open_SomeD [OF that] obtain es where
      es: "selected_layout file = Some es"
      and arc: "arc = \<lparr>filename = fname,
                     entries = map (decoded_entry file es (nat (u32_at file 0)))
                                 [0..<nat (u32_at file 0)]\<rparr>"
      by blast
    from es have "es = (if 4 + u32_at file 0 * 0x14 = u32_at file 0x14 mod 2 ^ 30
                      then 0x14 else 0x20)"
      by (auto simp add: selected_layout_def Let_def split: if_splits)
    with arc show ?thesis by simp
  qed
  from a b c d show ?thesis by blast
qed

theorem layout_detection_witness:
  "(0x24::nat) \<le> length tie_archive
   \<and> is_sane_count (u32_at tie_archive 0)
   \<and> 4 + u32_at tie_archive 0 * 0x14 = u32_at tie_archive 0x14 mod 2 ^ 30
   \<and> 4 + u32_at tie_archive 0 * 0x20 = u32_at tie_archive 0x20 mod 2 ^ 30
   \<and> try_open ''tie.cgf'' tie_archive
       = open_index ''tie.cgf'' tie_archive (nat (u32_at tie_archive 0)) 0x14
           (u32_at tie_archive 0x14)
   \<and> try_open ''tie.cgf'' tie_archive
       = Inr (Some \<lparr>filename = ''tie.cgf'',
                    entries = [CgfEntry (lit ''A'') ''image'' 0x18 12 0]\<rparr>)"
proof -
  have l: "0x24 \<le> length tie_archive"
    by (simp add: tie_archive_def)
  have s: "is_sane_count (u32_at tie_archive 0)"
    by code_simp
  have a: "4 + u32_at tie_archive 0 * 0x14 = u32_at tie_archive 0x14 mod 2 ^ 30"
    by code_simp
  have b: "4 + u32_at tie_archive 0 * 0x20 = u32_at tie_archive 0x20 mod 2 ^ 30"
    by code_simp
  have r: "try_open ''tie.cgf'' tie_archive
       = Inr (Some \<lparr>filename = ''tie.cgf'',
                    entries = [CgfEntry (lit ''A'') ''image'' 0x18 12 0]\<rparr>)"
    by code_simp
  from layout_detection [OF l s, of "''tie.cgf''"] a
  have "try_open ''tie.cgf'' tie_archive
       = open_index ''tie.cgf'' tie_archive (nat (u32_at tie_archive 0)) 0x14
           (u32_at tie_archive 0x14)"
    by blast
  with l s a b r show ?thesis by blast
qed

section \<open>Rejection\<close>

text \<open>
  C4, as stated, fails for a file shorter than \<open>0x24\<close> bytes. The 24-byte file
  \<open>short_no_layout_file\<close> has a sane count, and neither the \<open>0x14\<close> nor the \<open>0x20\<close>
  equation holds for it (the value at offset \<open>0x14\<close> is 0 and there are no bytes at offset
  \<open>0x20\<close>), yet \<open>try_open\<close> raises \<open>struct.error\<close> at the read at offset \<open>0x20\<close> instead of
  returning \<open>None\<close>.
\<close>

theorem short_file_not_rejected:
  "is_sane_count (u32_at short_no_layout_file 0)
   \<and> length short_no_layout_file = 24
   \<and> read_at short_no_layout_file 0x20 4 = []
   \<and> 4 + u32_at short_no_layout_file 0 * 0x14 \<noteq> u32_at short_no_layout_file 0x14 mod 2 ^ 30
   \<and> 4 + u32_at short_no_layout_file 0 * 0x20 \<noteq> u32_at short_no_layout_file 0x20 mod 2 ^ 30
   \<and> try_open ''s.cgf'' short_no_layout_file = Inl StructError"
  by code_simp

text \<open>
  C4, amended. \<open>try_open\<close> returns the format-mismatch result \<open>None\<close>, and so no directory
  at all, whenever the count that it reads is 0, or is 100000 or more, or the count is
  sane, the file has at least \<open>0x24\<close> bytes and neither the \<open>0x14\<close> nor the \<open>0x20\<close> equation
  holds for the two probe values, or the opener decodes a name that is empty after
  stripping the trailing nulls or that contains one of the characters
  \<open>\ / : * ? " < > |\<close>. The opener decodes the name of record \<open>j\<close> when the records up to
  \<open>j\<close> lie within the file and the names before it are valid.
\<close>

theorem rejection:
  assumes "(4 \<le> length file \<and> u32_at file 0 = 0)
         \<or> (4 \<le> length file \<and> 100000 \<le> u32_at file 0)
         \<or> (0x24 \<le> length file \<and> is_sane_count (u32_at file 0)
             \<and> 4 + u32_at file 0 * 0x14 \<noteq> u32_at file 0x14 mod 2 ^ 30
             \<and> 4 + u32_at file 0 * 0x20 \<noteq> u32_at file 0x20 mod 2 ^ 30)
         \<or> (0x24 \<le> length file \<and> is_sane_count (u32_at file 0)
             \<and> selected_layout file = Some es
             \<and> j < nat (u32_at file 0) \<and> 4 + (j + 1) * es \<le> length file
             \<and> (\<forall>i<j. \<exists>s. utf8_decode (record_name file es i) = Some s
                          \<and> is_valid_entry_name (rstrip 0 s))
             \<and> (\<exists>s. utf8_decode (record_name file es j) = Some s
                    \<and> (rstrip 0 s = [] \<or> (\<exists>c\<in>set forbidden_chars. c \<in> set (rstrip 0 s)))))"
  shows "try_open fname file = Inr None"
proof -
  consider
      (zero) "4 \<le> length file" "u32_at file 0 = 0"
    | (large) "4 \<le> length file" "100000 \<le> u32_at file 0"
    | (layout) "0x24 \<le> length file" "is_sane_count (u32_at file 0)"
        "4 + u32_at file 0 * 0x14 \<noteq> u32_at file 0x14 mod 2 ^ 30"
        "4 + u32_at file 0 * 0x20 \<noteq> u32_at file 0x20 mod 2 ^ 30"
    | (name) s where "0x24 \<le> length file" "is_sane_count (u32_at file 0)"
        "selected_layout file = Some es"
        "j < nat (u32_at file 0)" "4 + (j + 1) * es \<le> length file"
        "\<forall>i<j. \<exists>s. utf8_decode (record_name file es i) = Some s
                          \<and> is_valid_entry_name (rstrip 0 s)"
        "utf8_decode (record_name file es j) = Some s"
        "rstrip 0 s = [] \<or> (\<exists>c\<in>set forbidden_chars. c \<in> set (rstrip 0 s))"
    using assms by blast
  then show ?thesis
  proof cases
    case zero
    then show ?thesis by (simp add: try_open_insane is_sane_count_def)
  next
    case large
    then show ?thesis by (simp add: try_open_insane is_sane_count_def)
  next
    case layout
    then show ?thesis
      using try_open_layout [of "file" fname] selected_layout_None [of "file"] by simp
  next
    case name
    from selected_layout_SomeD(1) [OF name(3)] have es4: "4 \<le> es" by auto
    from name(8) have inv: "\<not> is_valid_entry_name (rstrip 0 s)"
      by (simp only: invalid_name_iff)
    from name(6)
    have names': "\<forall>i. i < j \<longrightarrow> (\<exists>s. utf8_decode (record_name file es i) = Some s
                      \<and> is_valid_entry_name (rstrip 0 s))" by blast
    from open_index_stops(1) [OF es4 name(4) name(5) names' name(7) inv]
    show ?thesis
      using try_open_layout [OF name(1) name(2), of fname] name(3) by simp
  qed
qed

theorem rejection_witness:
  "try_open ''z.cgf'' zero_count_file = Inr None
   \<and> try_open ''h.cgf'' huge_count_file = Inr None
   \<and> try_open ''n.cgf'' no_layout_file = Inr None
   \<and> try_open ''b.cgf'' bad_name_file = Inr None"
proof -
  have "4 \<le> length zero_count_file \<and> u32_at zero_count_file 0 = 0"
    by code_simp
  from rejection [of zero_count_file 0 0, OF disjI1, OF this]
  have z: "try_open ''z.cgf'' zero_count_file = Inr None" .
  have "4 \<le> length huge_count_file \<and> 100000 \<le> u32_at huge_count_file 0"
    by code_simp
  from rejection [of huge_count_file 0 0, OF disjI2, OF disjI1, OF this]
  have h: "try_open ''h.cgf'' huge_count_file = Inr None" .
  have "0x24 \<le> length no_layout_file \<and> is_sane_count (u32_at no_layout_file 0)
      \<and> 4 + u32_at no_layout_file 0 * 0x14 \<noteq> u32_at no_layout_file 0x14 mod 2 ^ 30
      \<and> 4 + u32_at no_layout_file 0 * 0x20 \<noteq> u32_at no_layout_file 0x20 mod 2 ^ 30"
    by code_simp
  from rejection [of no_layout_file 0 0, OF disjI2, OF disjI2, OF disjI1, OF this]
  have n: "try_open ''n.cgf'' no_layout_file = Inr None" .
  have b0: "0x24 \<le> length bad_name_file \<and> is_sane_count (u32_at bad_name_file 0)
      \<and> selected_layout bad_name_file = Some 0x14
      \<and> 1 < nat (u32_at bad_name_file 0) \<and> 4 + (1 + 1) * 0x14 \<le> length bad_name_file"
    by code_simp
  have b1: "utf8_decode (record_name bad_name_file 0x14 0) = Some (lit ''A'' @ replicate 15 0)
      \<and> is_valid_entry_name (rstrip 0 (lit ''A'' @ replicate 15 0))"
    by code_simp
  have b2: "utf8_decode (record_name bad_name_file 0x14 1) = Some (lit ''B?'' @ replicate 14 0)
      \<and> 0x3F \<in> set forbidden_chars \<and> 0x3F \<in> set (rstrip 0 (lit ''B?'' @ replicate 14 0))"
    by code_simp
  from b1 have b1': "\<forall>i<1. \<exists>s. utf8_decode (record_name bad_name_file 0x14 i) = Some s
                          \<and> is_valid_entry_name (rstrip 0 s)"
    by simp
  from b2 have b2': "\<exists>s. utf8_decode (record_name bad_name_file 0x14 1) = Some s
         \<and> (rstrip 0 s = [] \<or> (\<exists>c\<in>set forbidden_chars. c \<in> set (rstrip 0 s)))"
    by blast
  from b0 b1' b2'
  have "0x24 \<le> length bad_name_file \<and> is_sane_count (u32_at bad_name_file 0)
      \<and> selected_layout bad_name_file = Some 0x14
      \<and> 1 < nat (u32_at bad_name_file 0) \<and> 4 + (1 + 1) * 0x14 \<le> length bad_name_file
      \<and> (\<forall>i<1. \<exists>s. utf8_decode (record_name bad_name_file 0x14 i) = Some s
                          \<and> is_valid_entry_name (rstrip 0 s))
      \<and> (\<exists>s. utf8_decode (record_name bad_name_file 0x14 1) = Some s
         \<and> (rstrip 0 s = [] \<or> (\<exists>c\<in>set forbidden_chars. c \<in> set (rstrip 0 s))))"
    by blast
  from rejection [of bad_name_file "0x14" 1, OF disjI2, OF disjI2, OF disjI2, OF this]
  have b: "try_open ''b.cgf'' bad_name_file = Inr None" .
  from z h n b show ?thesis by blast
qed

section \<open>Mismatch results and exceptions\<close>

text \<open>
  C10. \<open>try_open\<close> returns \<open>None\<close> only for the three conditions that it checks: the
  count is not sane, or neither layout equation holds, or a decoded name is not valid.
  Other files that are not valid archives make it raise an exception instead: a file
  of fewer than 4 bytes and a file with a sane count but fewer than \<open>0x24\<close> bytes raise
  \<open>struct.error\<close>, and an index in which the first name field that is not a valid name
  is not valid UTF-8 raises \<open>UnicodeDecodeError\<close>.
\<close>

theorem mismatch_and_exceptions:
  "(try_open fname file = Inr None \<longrightarrow>
      4 \<le> length file
      \<and> (\<not> is_sane_count (u32_at file 0)
         \<or> (0x24 \<le> length file
             \<and> 4 + u32_at file 0 * 0x14 \<noteq> u32_at file 0x14 mod 2 ^ 30
             \<and> 4 + u32_at file 0 * 0x20 \<noteq> u32_at file 0x20 mod 2 ^ 30)
         \<or> (\<exists>es j s. 0x24 \<le> length file \<and> selected_layout file = Some es
               \<and> j < nat (u32_at file 0)
               \<and> utf8_decode (record_name file es j) = Some s
               \<and> \<not> is_valid_entry_name (rstrip 0 s))))
   \<and> (length file < 4 \<longrightarrow> try_open fname file = Inl StructError)
   \<and> (4 \<le> length file \<and> is_sane_count (u32_at file 0) \<and> length file < 0x24 \<longrightarrow>
        try_open fname file = Inl StructError)
   \<and> (\<forall>es j. 0x24 \<le> length file \<and> is_sane_count (u32_at file 0)
          \<and> selected_layout file = Some es
          \<and> j < nat (u32_at file 0) \<and> 4 + (j + 1) * es \<le> length file
          \<and> (\<forall>i<j. \<exists>s. utf8_decode (record_name file es i) = Some s
                       \<and> is_valid_entry_name (rstrip 0 s))
          \<and> utf8_decode (record_name file es j) = None \<longrightarrow>
        try_open fname file = Inl UnicodeDecodeError)"
proof (intro conjI impI allI)
  assume n: "try_open fname file = Inr None"
  show l4: "4 \<le> length file"
    using n try_open_short [of "file" fname] by (cases "length file < 4") simp_all
  show "\<not> is_sane_count (u32_at file 0)
         \<or> (0x24 \<le> length file
             \<and> 4 + u32_at file 0 * 0x14 \<noteq> u32_at file 0x14 mod 2 ^ 30
             \<and> 4 + u32_at file 0 * 0x20 \<noteq> u32_at file 0x20 mod 2 ^ 30)
         \<or> (\<exists>es j s. 0x24 \<le> length file \<and> selected_layout file = Some es
               \<and> j < nat (u32_at file 0)
               \<and> utf8_decode (record_name file es j) = Some s
               \<and> \<not> is_valid_entry_name (rstrip 0 s))"
  proof (cases "is_sane_count (u32_at file 0)")
    case False
    then show ?thesis by simp
  next
    case sane: True
    have l: "0x24 \<le> length file"
      using n try_open_no_probe [OF l4 sane, of fname] by (cases "length file < 0x24") simp_all
    note lay = try_open_layout [OF l sane, of fname]
    show ?thesis
    proof (cases "selected_layout file")
      case None
      with l selected_layout_None [of "file"] show ?thesis by simp
    next
      case (Some es)
      from selected_layout_SomeD(1) [OF Some] have es4: "4 \<le> es" by auto
      from n lay Some
      have "open_index fname file (nat (u32_at file 0)) es (u32_at file es) = Inr None" by simp
      from open_index_NoneD [OF this es4] l Some show ?thesis by blast
    qed
  qed
next
  assume "length file < 4"
  then show "try_open fname file = Inl StructError" by (rule try_open_short)
next
  assume "4 \<le> length file \<and> is_sane_count (u32_at file 0) \<and> length file < 0x24"
  then show "try_open fname file = Inl StructError" by (simp add: try_open_no_probe)
next
  fix es j
  assume a: "0x24 \<le> length file \<and> is_sane_count (u32_at file 0)
          \<and> selected_layout file = Some es
          \<and> j < nat (u32_at file 0) \<and> 4 + (j + 1) * es \<le> length file
          \<and> (\<forall>i<j. \<exists>s. utf8_decode (record_name file es i) = Some s
                       \<and> is_valid_entry_name (rstrip 0 s))
          \<and> utf8_decode (record_name file es j) = None"
  then have l: "0x24 \<le> length file" and sane: "is_sane_count (u32_at file 0)"
    and es: "selected_layout file = Some es"
    and j: "j < nat (u32_at file 0)" and len: "4 + (j + 1) * es \<le> length file"
    and names: "\<forall>i. i < j \<longrightarrow> (\<exists>s. utf8_decode (record_name file es i) = Some s
                      \<and> is_valid_entry_name (rstrip 0 s))"
    and u: "utf8_decode (record_name file es j) = None"
    by blast+
  from selected_layout_SomeD(1) [OF es] have es4: "4 \<le> es" by auto
  from open_index_stops(2) [OF es4 j len names u]
  show "try_open fname file = Inl UnicodeDecodeError"
    using try_open_layout [OF l sane, of fname] es by simp
qed

theorem mismatch_and_exceptions_witness:
  "try_open ''n.cgf'' no_layout_file = Inr None
   \<and> (4::nat) \<le> length no_layout_file
   \<and> try_open ''e.cgf'' example_archive_0x18 = Inl StructError
   \<and> try_open ''x.cgf'' bad_utf8_file = Inl UnicodeDecodeError"
proof -
  have n: "try_open ''n.cgf'' no_layout_file = Inr None"
    by code_simp
  from mismatch_and_exceptions [of "''n.cgf''" no_layout_file] n
  have n4: "4 \<le> length no_layout_file" by blast
  have "4 \<le> length example_archive_0x18 \<and> is_sane_count (u32_at example_archive_0x18 0)
      \<and> length example_archive_0x18 < 0x24"
    by code_simp
  with mismatch_and_exceptions [of "''e.cgf''" example_archive_0x18]
  have e: "try_open ''e.cgf'' example_archive_0x18 = Inl StructError" by blast
  have "0x24 \<le> length bad_utf8_file \<and> is_sane_count (u32_at bad_utf8_file 0)
          \<and> selected_layout bad_utf8_file = Some 0x14
          \<and> 0 < nat (u32_at bad_utf8_file 0) \<and> 4 + (0 + 1) * 0x14 \<le> length bad_utf8_file
          \<and> utf8_decode (record_name bad_utf8_file 0x14 0) = None"
    by code_simp
  then have "0x24 \<le> length bad_utf8_file \<and> is_sane_count (u32_at bad_utf8_file 0)
          \<and> selected_layout bad_utf8_file = Some 0x14
          \<and> 0 < nat (u32_at bad_utf8_file 0) \<and> 4 + (0 + 1) * 0x14 \<le> length bad_utf8_file
          \<and> (\<forall>i<0. \<exists>s. utf8_decode (record_name bad_utf8_file 0x14 i) = Some s
                       \<and> is_valid_entry_name (rstrip 0 s))
          \<and> utf8_decode (record_name bad_utf8_file 0x14 0) = None"
    by simp
  with mismatch_and_exceptions [of "''x.cgf''" bad_utf8_file]
  have x: "try_open ''x.cgf'' bad_utf8_file = Inl UnicodeDecodeError" by blast
  from n n4 e x show ?thesis by blast
qed

section \<open>The extractor's transform\<close>



section \<open>The end-to-end example\<close>

text \<open>
  C9, as stated, fails. The example archive has 34 bytes, fewer than the \<open>0x24\<close> that the
  two probe reads need, so \<open>try_open\<close> raises \<open>struct.error\<close> at the read at offset \<open>0x20\<close>
  and returns no directory; this is so with the trailing field \<open>0\<close> of the example and
  also with the trailing field \<open>0x18\<close>.
\<close>

theorem example_archive_raises:
  "try_open ''a.cgf'' example_archive = Inl StructError
   \<and> try_open ''a.cgf'' example_archive_0x18 = Inl StructError"
  by (simp add: try_open_def example_archive_def example_archive_0x18_def read_at_def
      is_sane_count_def)

text \<open>
  C9, amended. For the archive with \<open>count = 1\<close>, record size \<open>0x14\<close>, the name \<open>A.IMG\<close>,
  the trailing field \<open>0x18\<close> (offset \<open>0x18\<close>, flags 0) and the 12 payload bytes
  \<open>0123456789AB\<close>, \<open>try_open\<close> returns exactly one \<open>CgfEntry\<close> with name \<open>A.IMG\<close>, offset
  \<open>0x18\<close>, size 12 and flags 0, and extracting it writes 7 zero bytes followed by
  \<open>3456789AB\<close>.
\<close>

theorem example_archive_12_end_to_end:
  "try_open ''a.cgf'' example_archive_12
     = Inr (Some \<lparr>filename = ''a.cgf'',
                  entries = [CgfEntry (lit ''A.IMG'') ''image'' 0x18 12 0]\<rparr>)
   \<and> extract_file example_archive_12 (CgfEntry (lit ''A.IMG'') ''image'' 0x18 12 0)
     = Inr [0, 0, 0, 0, 0, 0, 0, 0x33, 0x34, 0x35, 0x36, 0x37, 0x38, 0x39, 0x41, 0x42]"
  by code_simp

end
